theory Spec2Isabelle
  imports Complex_Main
begin

section \<open>Shape: path data compiled into a draw sequence\<close>

text \<open>
  \<^verbatim>\<open>src/extension/tools/lib/objects/Shape.js\<close>. The values a draw sequence and a path's
  \<^verbatim>\<open>d\<close> array hold are JavaScript values: numbers, strings (the opcodes) and
  \<^verbatim>\<open>undefined\<close> (a field the data does not carry). Numbers are exact rationals here: the
  arithmetic of \<^verbatim>\<open>Math.round(command * 100) / 100\<close> is taken without the representation error
  of IEEE doubles, and \<^verbatim>\<open>NaN\<close> and the infinities are left out.
\<close>

datatype val = Num rat | Str string | Undefined

text \<open>
  \<^verbatim>\<open>Math.round\<close> of ECMAScript: the integer closest to the argument, and of two equally
  close integers the one nearer to plus infinity.
\<close>

definition Math_round :: "rat \<Rightarrow> rat" where
  "Math_round x = of_int \<lfloor>x + 1 / 2\<rfloor>"

record Path =
  stroke :: bool
  color :: val
  thickness :: val
  alpha :: val
  d :: "val list"

text \<open>
  The data bag handed to the constructor. \<^verbatim>\<open>id\<close> is held as the text that
  \<^verbatim>\<open>"Shape" + this.id\<close> appends.
\<close>

record Data =
  data_id :: string
  paths :: "Path list"

record Shape =
  name :: string
  draw :: "val list"
  shape_paths :: "Path list"

text \<open>
  Lines 50 to 57: \<^verbatim>\<open>path.d.forEach(function(command, k, commands) {...})\<close> visits the
  indices in ascending order and overwrites \<^verbatim>\<open>commands[k]\<close> in place when the entry is a
  number.
\<close>

function forEach_round :: "nat \<Rightarrow> val list \<Rightarrow> val list" where
  "forEach_round k commands =
     (if k < length commands
      then forEach_round (k + 1)
             (case commands ! k of
                Num command \<Rightarrow> commands[k := Num (Math_round (command * 100) / 100)]
              | _ \<Rightarrow> commands)
      else commands)"
  by pat_completeness auto
termination
  by (relation "measure (\<lambda>(k, commands). length commands - k)") (auto split: val.splits)

declare forEach_round.simps [simp del]

text \<open>
  Lines 32 to 61: the loop over \<^verbatim>\<open>this.paths\<close> with its counter \<^verbatim>\<open>j\<close> and the
  accumulated \<^verbatim>\<open>draw\<close>; \<open>visited\<close> holds the paths already gone through. The path objects are the caller's own (\<^verbatim>\<open>Object.assign\<close>
  copies the reference to the array), so the loop returns them as it leaves them, next to
  the draw sequence. The paths of one data bag are taken not to share their \<^verbatim>\<open>d\<close> arrays.
\<close>

fun Shape_loop :: "nat \<Rightarrow> Path list \<Rightarrow> Path list \<Rightarrow> val list \<Rightarrow> Path list \<times> val list" where
  "Shape_loop j [] visited draw0 = (visited, draw0)"
| "Shape_loop j (path # rest) visited draw0 =
     (let draw1 = (if j > 0 then draw0 @ [Str ''cp''] else draw0);
          draw2 = (if stroke path
                   then draw1 @ [Str ''s'', color path, thickness path, alpha path]
                   else draw1 @ [Str ''f'', color path, alpha path]);
          path' = path\<lparr>d := forEach_round 0 (d path)\<rparr>;
          draw3 = draw2 @ d path'
      in Shape_loop (j + 1) rest (visited @ [path']) draw3)"

text \<open>
  The constructor: the new Shape, and the caller's data as the constructor leaves it.
\<close>

definition new_Shape :: "Data \<Rightarrow> Shape \<times> Data" where
  "new_Shape data =
     (let (paths', draw') = Shape_loop 0 (paths data) [] []
      in (\<lparr>name = ''Shape'' @ data_id data, draw = draw', shape_paths = paths'\<rparr>,
          data\<lparr>paths := paths'\<rparr>))"

subsection \<open>What the specification says of a Shape\<close>

text \<open>Rounding one entry of \<^verbatim>\<open>d\<close>: numbers by the code's rule, the rest as they are.\<close>

definition round2 :: "val \<Rightarrow> val" where
  "round2 v = (case v of Num x \<Rightarrow> Num (Math_round (x * 100) / 100) | _ \<Rightarrow> v)"



text \<open>The style opcodes of a path, and the segment a path contributes.\<close>

definition style :: "Path \<Rightarrow> val list" where
  "style p = (if stroke p then [Str ''s'', color p, thickness p, alpha p]
              else [Str ''f'', color p, alpha p])"

definition segment :: "Path \<Rightarrow> val list" where
  "segment p = style p @ map round2 (d p)"

text \<open>Segments with one \<^verbatim>\<open>cp\<close> between each two neighbours and none before the first.\<close>

fun interleave_cp :: "val list list \<Rightarrow> val list" where
  "interleave_cp [] = []"
| "interleave_cp [s] = s"
| "interleave_cp (s # t # ss) = s @ Str ''cp'' # interleave_cp (t # ss)"

section \<open>Container: one timeline reduced to a list of children\<close>

text \<open>
  \<^verbatim>\<open>src/src/extension/publish/items/Container.js\<close>. The instances the Container works on are
  objects with an identity: a reference is the position of the object in a heap, and
  \<^verbatim>\<open>===\<close> on instances is equality of references. A lookup that finds nothing gives
  \<^verbatim>\<open>undefined\<close>, which is \<open>None\<close>; reading a property of \<^verbatim>\<open>undefined\<close> throws a TypeError.
  Frame numbers and the ids of instances and assets are integers. A function that can throw
  returns \<open>Inl\<close> of the error; what a throw leaves behind in the Container is not kept.
\<close>

type_synonym ref = nat

datatype error = CreateInstanceError | TypeError

text \<open>
  A command of a frame. \<^verbatim>\<open>maskTill\<close> is the id of the masked instance, on a command that
  starts a mask.
\<close>

record Command =
  instanceId :: int
  assetId :: int
  maskTill :: "int option"

record Frame =
  frame :: int
  commands :: "Command list"

text \<open>The two events an instance emits, with the arguments the handlers receive.\<close>

datatype event = MaskAdded Command int | MaskRemoved Command int

text \<open>An entry of \<^verbatim>\<open>this.masks\<close>: \<^verbatim>\<open>{instance, mask, frame}\<close> and later \<^verbatim>\<open>duration\<close>.\<close>

record entry =
  entry_instance :: "ref option"
  entry_mask :: "ref option"
  entry_frame :: int
  entry_duration :: "int option"

text \<open>
  An instance in the heap: whether it is an \<^verbatim>\<open>instanceof SoundInstance\<close>, which is fixed when
  the object is made, and the rest of its state, which its own methods change.
\<close>

record 'i Instance =
  isSoundInstance :: bool
  state :: 'i

record Renderer =
  compress :: bool

text \<open>
  The library and the classes of instances are not among the sources (\<^verbatim>\<open>LibraryItem\<close>,
  \<^verbatim>\<open>ContainerInstance\<close> and \<^verbatim>\<open>SoundInstance\<close> are only required), so what the Container
  calls on them is a parameter of every function below, with the shape the calls in
  \<^verbatim>\<open>Container.js\<close> have: \<^verbatim>\<open>library.createInstance(assetId, instanceId)\<close> makes a new object
  or throws; \<^verbatim>\<open>instance.addToFrame(frame, command)\<close> changes the instance's own state and
  emits mask events, in order; \<^verbatim>\<open>renderable\<close> and \<^verbatim>\<open>localName\<close> are read from the instance;
  \<^verbatim>\<open>instance.render(renderer, mask)\<close> returns text and changes nothing.
\<close>

record 'i External =
  createInstance :: "int \<Rightarrow> int \<Rightarrow> error + 'i Instance"
  addToFrame :: "'i \<Rightarrow> int \<Rightarrow> Command \<Rightarrow> 'i \<times> event list"
  renderable :: "'i \<Rightarrow> bool"
  localName :: "'i \<Rightarrow> string"
  instance_render :: "'i Instance \<Rightarrow> Renderer \<Rightarrow> string option \<Rightarrow> string"

text \<open>
  The calls made on the library and on instances are kept in a log, in the order they are
  made, next to the heap of instances. A reference the Container holds is a position of
  the heap: references come from \<^verbatim>\<open>createInstance\<close> only.
\<close>

datatype call = CreateInstance int int | AddToFrame ref int Command

record 'i World =
  heap :: "'i Instance list"
  calls :: "call list"

record Container =
  frames :: "Frame list"
  instancesMap :: "int \<rightharpoonup> ref"
  masks :: "entry list"
  children :: "ref list"
  addChildren :: "string list"

subsection \<open>Mask events\<close>

text \<open>Lines 72 to 82.\<close>

definition onMaskAdded :: "Container \<Rightarrow> Command \<Rightarrow> int \<Rightarrow> Container" where
  "onMaskAdded this command fr =
     (let mask = instancesMap this (instanceId command);
          inst = (case maskTill command of None \<Rightarrow> None | Some t \<Rightarrow> instancesMap this t)
      in this\<lparr>masks := masks this @
           [\<lparr>entry_instance = inst, entry_mask = mask, entry_frame = fr,
             entry_duration = None\<rparr>]\<rparr>)"

text \<open>Lines 90 to 101.\<close>

definition onMaskRemoved :: "Container \<Rightarrow> Command \<Rightarrow> int \<Rightarrow> Container" where
  "onMaskRemoved this command fr =
     (let mask = instancesMap this (instanceId command)
      in this\<lparr>masks :=
           map (\<lambda>entry. if entry_mask entry = mask
                         then entry\<lparr>entry_duration := Some (fr - entry_frame entry)\<rparr>
                         else entry)
               (masks this)\<rparr>)"

text \<open>
  The handlers subscribed at lines 126 and 127 run for each event an instance emits, in
  the order of emission.
\<close>

fun emit :: "Container \<Rightarrow> event list \<Rightarrow> Container" where
  "emit this [] = this"
| "emit this (MaskAdded command fr # es) = emit (onMaskAdded this command fr) es"
| "emit this (MaskRemoved command fr # es) = emit (onMaskRemoved this command fr) es"

subsection \<open>getChildren\<close>

text \<open>
  Lines 119 to 128: the instance of the command, looked up or made. A new object takes the
  next free position of the heap.
\<close>

definition lookup_or_create ::
  "'i External \<Rightarrow> Command \<Rightarrow> Container \<Rightarrow> 'i World \<Rightarrow> error + (ref \<times> Container \<times> 'i World)" where
  "lookup_or_create api command this w =
     (case instancesMap this (instanceId command) of
        Some r \<Rightarrow> Inr (r, this, w)
      | None \<Rightarrow>
          (case createInstance api (assetId command) (instanceId command) of
             Inl e \<Rightarrow> Inl e
           | Inr obj \<Rightarrow>
               Inr (length (heap w),
                    this\<lparr>instancesMap := (instancesMap this)(instanceId command \<mapsto> length (heap w))\<rparr>,
                    w\<lparr>heap := heap w @ [obj],
                      calls := calls w @ [CreateInstance (assetId command) (instanceId command)]\<rparr>)))"

text \<open>
  Lines 117 to 138, the body run for one command of the frame numbered \<open>fr\<close>;
  \<open>children0\<close> is the local list \<^verbatim>\<open>children\<close>.
\<close>

definition visit_command ::
  "'i External \<Rightarrow> int \<Rightarrow> Command \<Rightarrow> ref list \<times> Container \<times> 'i World
     \<Rightarrow> error + (ref list \<times> Container \<times> 'i World)" where
  "visit_command api fr command s =
     (case s of (children0, this, w) \<Rightarrow>
        (case lookup_or_create api command this w of
           Inl e \<Rightarrow> Inl e
         | Inr (r, this1, w1) \<Rightarrow>
             (let obj = heap w1 ! r;
                  (st, events) = addToFrame api (state obj) fr command;
                  w2 = w1\<lparr>heap := (heap w1)[r := obj\<lparr>state := st\<rparr>],
                          calls := calls w1 @ [AddToFrame r fr command]\<rparr>;
                  this2 = emit this1 events;
                  children1 = (if \<not> isSoundInstance obj \<and> r \<notin> set children0
                               then children0 @ [r] else children0)
              in Inr (children1, this2, w2))))"

fun forEach_command ::
  "'i External \<Rightarrow> int \<Rightarrow> Command list \<Rightarrow> ref list \<times> Container \<times> 'i World
     \<Rightarrow> error + (ref list \<times> Container \<times> 'i World)" where
  "forEach_command api fr [] s = Inr s"
| "forEach_command api fr (command # rest) s =
     (case visit_command api fr command s of
        Inl e \<Rightarrow> Inl e
      | Inr s' \<Rightarrow> forEach_command api fr rest s')"

fun forEach_frame ::
  "'i External \<Rightarrow> Frame list \<Rightarrow> ref list \<times> Container \<times> 'i World
     \<Rightarrow> error + (ref list \<times> Container \<times> 'i World)" where
  "forEach_frame api [] s = Inr s"
| "forEach_frame api (f # rest) s =
     (case forEach_command api (frame f) (commands f) s of
        Inl e \<Rightarrow> Inl e
      | Inr s' \<Rightarrow> forEach_frame api rest s')"

text \<open>
  Lines 143 to 149: the loop from the last index down to 0 that removes, with
  \<^verbatim>\<open>splice(i, 1)\<close>, each entry that is not renderable. The index is an integer: on an empty
  list it starts at \<open>- 1\<close> and the body never runs.
\<close>

function splice_loop :: "('a \<Rightarrow> bool) \<Rightarrow> 'a list \<Rightarrow> int \<Rightarrow> error + 'a list" where
  "splice_loop rend children0 i =
     (if i \<ge> 0
      then (if nat i < length children0
            then splice_loop rend
                   (if \<not> rend (children0 ! nat i)
                    then take (nat i) children0 @ drop (nat i + 1) children0
                    else children0)
                   (i - 1)
            else Inl TypeError)
      else Inr children0)"
  by pat_completeness auto
termination
  by (relation "measure (\<lambda>(rend, children0, i). nat (i + 1))") auto

declare splice_loop.simps [simp del]

text \<open>Lines 108 to 155. The result is the returned list, the Container and the world.\<close>

definition getChildren ::
  "'i External \<Rightarrow> Container \<Rightarrow> 'i World \<Rightarrow> error + (ref list \<times> Container \<times> 'i World)" where
  "getChildren api this w =
     (case forEach_frame api (frames this) ([], this, w) of
        Inl e \<Rightarrow> Inl e
      | Inr (children0, this', w') \<Rightarrow>
          (case splice_loop (\<lambda>r. renderable api (state (heap w' ! r))) children0
                  (int (length children0) - 1) of
             Inl e \<Rightarrow> Inl e
           | Inr children1 \<Rightarrow> Inr (rev children1, this', w')))"

text \<open>
  Lines 16 to 46, the constructor, for a timeline with the given frames: the map and the
  masks start empty, \<^verbatim>\<open>children\<close> is what \<^verbatim>\<open>getChildren\<close> returns, \<^verbatim>\<open>addChildren\<close> starts
  empty.
\<close>

definition new_Container ::
  "'i External \<Rightarrow> Frame list \<Rightarrow> 'i World \<Rightarrow> error + (Container \<times> 'i World)" where
  "new_Container api fs w =
     (let this = \<lparr>frames = fs, instancesMap = Map.empty, masks = [], children = [],
                  addChildren = []\<rparr>
      in case getChildren api this w of
           Inl e \<Rightarrow> Inl e
         | Inr (children1, this', w') \<Rightarrow>
             Inr (this'\<lparr>children := children1, addChildren := []\<rparr>, w'))"

subsection \<open>Rendering\<close>

text \<open>
  Lines 240 to 250: the scan of \<^verbatim>\<open>this.masks\<close> from index 0. The result is the local name
  of the mask of the first entry found, \<open>None\<close> for \<^verbatim>\<open>null\<close>.
\<close>

fun scan_masks ::
  "'i External \<Rightarrow> 'i Instance list \<Rightarrow> entry list \<Rightarrow> ref option \<Rightarrow> error + string option" where
  "scan_masks api h [] inst = Inr None"
| "scan_masks api h (e # es) inst =
     (if entry_instance e = inst
      then (case entry_mask e of
              None \<Rightarrow> Inl TypeError
            | Some m \<Rightarrow> Inr (Some (localName api (state (h ! m)))))
      else scan_masks api h es inst)"

definition getMaskByInstance ::
  "'i External \<Rightarrow> 'i Instance list \<Rightarrow> Container \<Rightarrow> ref option \<Rightarrow> error + string option" where
  "getMaskByInstance api h this inst = scan_masks api h (masks this) inst"

text \<open>Lines 228 to 232. The text rendered and the Container with the name pushed.\<close>

definition renderInstance ::
  "'i External \<Rightarrow> 'i Instance list \<Rightarrow> Renderer \<Rightarrow> Container \<Rightarrow> ref option
     \<Rightarrow> error + (string \<times> Container)" where
  "renderInstance api h renderer this inst =
     (case inst of
        None \<Rightarrow> Inl TypeError
      | Some r \<Rightarrow>
          (let this' = this\<lparr>addChildren := addChildren this @ [localName api (state (h ! r))]\<rparr>
           in case getMaskByInstance api h this' (Some r) of
                Inl e \<Rightarrow> Inl e
              | Inr m \<Rightarrow> Inr (instance_render api (h ! r) renderer m, this')))"

text \<open>
  Lines 188 to 200 and 208 to 221: the two loops, over the entries of \<^verbatim>\<open>this.masks\<close> and
  over \<^verbatim>\<open>this.children\<close>, with the buffer built so far.
\<close>

fun renderChildrenMasks_loop ::
  "'i External \<Rightarrow> 'i Instance list \<Rightarrow> Renderer \<Rightarrow> entry list \<Rightarrow> string \<Rightarrow> Container
     \<Rightarrow> error + (string \<times> Container)" where
  "renderChildrenMasks_loop api h renderer [] buffer this = Inr (buffer, this)"
| "renderChildrenMasks_loop api h renderer (e # es) buffer this =
     (case renderInstance api h renderer this (entry_mask e) of
        Inl x \<Rightarrow> Inl x
      | Inr (s, this') \<Rightarrow> renderChildrenMasks_loop api h renderer es (buffer @ s) this')"

definition renderChildrenMasks ::
  "'i External \<Rightarrow> 'i Instance list \<Rightarrow> Renderer \<Rightarrow> Container \<Rightarrow> error + (string \<times> Container)" where
  "renderChildrenMasks api h renderer this =
     renderChildrenMasks_loop api h renderer (masks this) [] this"

fun renderChildren_loop ::
  "'i External \<Rightarrow> 'i Instance list \<Rightarrow> Renderer \<Rightarrow> ref list \<Rightarrow> string \<Rightarrow> Container
     \<Rightarrow> error + (string \<times> Container)" where
  "renderChildren_loop api h renderer [] buffer this = Inr (buffer, this)"
| "renderChildren_loop api h renderer (r # rs) buffer this =
     (case renderInstance api h renderer this (Some r) of
        Inl x \<Rightarrow> Inl x
      | Inr (s, this') \<Rightarrow> renderChildren_loop api h renderer rs (buffer @ s) this')"

definition renderChildren ::
  "'i External \<Rightarrow> 'i Instance list \<Rightarrow> Renderer \<Rightarrow> Container \<Rightarrow> error + (string \<times> Container)" where
  "renderChildren api h renderer this =
     renderChildren_loop api h renderer (children this) [] this"

text \<open>\<^verbatim>\<open>Array.prototype.join\<close> on an array of strings.\<close>

fun join :: "string \<Rightarrow> string list \<Rightarrow> string" where
  "join sep [] = []"
| "join sep [x] = x"
| "join sep (x # y # ys) = x @ sep @ join sep (y # ys)"

text \<open>Lines 171 to 181.\<close>

definition renderAddChildren :: "Renderer \<Rightarrow> Container \<Rightarrow> string" where
  "renderAddChildren renderer this =
     (let buffer = []
      in if length (addChildren this) \<noteq> 0
         then (let func = (if compress renderer then ''ac'' else ''addChild'')
               in buffer @ ''this.'' @ func @ ''('' @ join '', '' (addChildren this) @ '');'')
         else buffer)"

text \<open>Lines 162 to 169.\<close>

definition getContents ::
  "'i External \<Rightarrow> 'i Instance list \<Rightarrow> Renderer \<Rightarrow> Container \<Rightarrow> error + (string \<times> Container)" where
  "getContents api h renderer this =
     (case renderChildrenMasks api h renderer this of
        Inl e \<Rightarrow> Inl e
      | Inr (preBuffer, this1) \<Rightarrow>
          (case renderChildren api h renderer this1 of
             Inl e \<Rightarrow> Inl e
           | Inr (buffer, this2) \<Rightarrow>
               (let postBuffer = renderAddChildren renderer this2
                in Inr (preBuffer @ buffer @ postBuffer, this2))))"

subsection \<open>What the specification says of a Container\<close>

text \<open>The commands of a timeline in the order of the walk, each with its frame number.\<close>

definition walk :: "Frame list \<Rightarrow> (int \<times> Command) list" where
  "walk fs = concat (map (\<lambda>f. map (\<lambda>c. (frame f, c)) (commands f)) fs)"

text \<open>The instance ids of a list of commands, each once, in the order of first occurrence.\<close>

fun first_ids :: "int set \<Rightarrow> Command list \<Rightarrow> Command list" where
  "first_ids seen [] = []"
| "first_ids seen (c # cs) =
     (if instanceId c \<in> seen then first_ids seen cs
      else c # first_ids (insert (instanceId c) seen) cs)"

text \<open>The calls of the log, by kind.\<close>

fun created :: "call list \<Rightarrow> (int \<times> int) list" where
  "created [] = []"
| "created (CreateInstance a i # cs) = (a, i) # created cs"
| "created (AddToFrame r f c # cs) = created cs"

fun attached :: "call list \<Rightarrow> (ref \<times> int \<times> Command) list" where
  "attached [] = []"
| "attached (CreateInstance a i # cs) = attached cs"
| "attached (AddToFrame r f c # cs) = (r, f, c) # attached cs"

text \<open>
  The name of the mask of the first entry whose \<^verbatim>\<open>instance\<close> is the given one, and the
  fragment an instance renders to with that name.
\<close>

definition mask_of :: "'i External \<Rightarrow> 'i Instance list \<Rightarrow> entry list \<Rightarrow> ref \<Rightarrow> string option" where
  "mask_of api h ms r =
     (case find (\<lambda>e. entry_instance e = Some r) ms of
        None \<Rightarrow> None
      | Some e \<Rightarrow> map_option (\<lambda>m. localName api (state (h ! m))) (entry_mask e))"

definition fragment ::
  "'i External \<Rightarrow> 'i Instance list \<Rightarrow> Renderer \<Rightarrow> entry list \<Rightarrow> ref \<Rightarrow> string" where
  "fragment api h renderer ms r = instance_render api (h ! r) renderer (mask_of api h ms r)"

definition name_of :: "'i External \<Rightarrow> 'i Instance list \<Rightarrow> ref \<Rightarrow> string" where
  "name_of api h r = localName api (state (h ! r))"

text \<open>The walk of \<^verbatim>\<open>getChildren\<close> over a list of commands with their frame numbers.\<close>

fun visit_all ::
  "'i External \<Rightarrow> (int \<times> Command) list \<Rightarrow> ref list \<times> Container \<times> 'i World
     \<Rightarrow> error + (ref list \<times> Container \<times> 'i World)" where
  "visit_all api [] s = Inr s"
| "visit_all api ((fr, command) # rest) s =
     (case visit_command api fr command s of
        Inl e \<Rightarrow> Inl e
      | Inr s' \<Rightarrow> visit_all api rest s')"

subsection \<open>An example timeline\<close>

text \<open>
  A small class of instances to run the Container on: an instance of asset 0 is a sound
  instance, a negative asset cannot be resolved, a command that carries \<^verbatim>\<open>maskTill\<close> makes its
  instance a mask (not renderable, \<^verbatim>\<open>maskAdded\<close> emitted), and the next command for a mask
  without \<^verbatim>\<open>maskTill\<close> ends it (\<^verbatim>\<open>maskRemoved\<close> emitted). An instance renders to its name,
  followed by the name of its mask when it has one. Then a heap and a Container as they are
  after construction, and a timeline of two frames.
\<close>

record demo_state =
  demo_name :: string
  demo_renderable :: bool
  demo_masking :: bool

definition demo_api :: "demo_state External" where
  "demo_api =
     \<lparr>createInstance = (\<lambda>a i.
        if a < 0 then Inl CreateInstanceError
        else Inr \<lparr>isSoundInstance = (a = 0),
                  state = \<lparr>demo_name = ''i'' @ replicate (nat i) (CHR ''x''),
                            demo_renderable = True, demo_masking = False\<rparr>\<rparr>),
      addToFrame = (\<lambda>st fr c.
        case maskTill c of
          Some t \<Rightarrow> (st\<lparr>demo_renderable := False, demo_masking := True\<rparr>, [MaskAdded c fr])
        | None \<Rightarrow> if demo_masking st then (st\<lparr>demo_masking := False\<rparr>, [MaskRemoved c fr])
                  else (st, [])),
      renderable = demo_renderable,
      localName = demo_name,
      instance_render = (\<lambda>obj renderer m.
        demo_name (state obj) @ (case m of None \<Rightarrow> '';'' | Some n \<Rightarrow> ''<'' @ n @ '';''))\<rparr>"

definition demo_heap :: "demo_state Instance list" where
  "demo_heap =
     [\<lparr>isSoundInstance = False,
       state = \<lparr>demo_name = ''m'', demo_renderable = False, demo_masking = True\<rparr>\<rparr>,
      \<lparr>isSoundInstance = False,
       state = \<lparr>demo_name = ''a'', demo_renderable = True, demo_masking = False\<rparr>\<rparr>,
      \<lparr>isSoundInstance = False,
       state = \<lparr>demo_name = ''n'', demo_renderable = False, demo_masking = True\<rparr>\<rparr>,
      \<lparr>isSoundInstance = False,
       state = \<lparr>demo_name = ''b'', demo_renderable = True, demo_masking = False\<rparr>\<rparr>]"

definition demo_container :: Container where
  "demo_container =
     \<lparr>frames = [],
      instancesMap = [10 \<mapsto> 0, 11 \<mapsto> 1, 12 \<mapsto> 2, 13 \<mapsto> 3],
      masks = [\<lparr>entry_instance = Some 1, entry_mask = Some 0, entry_frame = 0,
                entry_duration = None\<rparr>,
               \<lparr>entry_instance = Some 1, entry_mask = Some 2, entry_frame = 3,
                entry_duration = None\<rparr>,
               \<lparr>entry_instance = Some 3, entry_mask = Some 0, entry_frame = 5,
                entry_duration = None\<rparr>],
      children = [3, 1],
      addChildren = []\<rparr>"

definition demo_frames :: "Frame list" where
  "demo_frames =
     [\<lparr>frame = 0, commands =
         [\<lparr>instanceId = 1, assetId = 5, maskTill = None\<rparr>,
          \<lparr>instanceId = 2, assetId = 0, maskTill = None\<rparr>,
          \<lparr>instanceId = 3, assetId = 6, maskTill = Some 1\<rparr>]\<rparr>,
      \<lparr>frame = 1, commands =
         [\<lparr>instanceId = 1, assetId = 5, maskTill = None\<rparr>,
          \<lparr>instanceId = 4, assetId = 7, maskTill = None\<rparr>,
          \<lparr>instanceId = 3, assetId = 6, maskTill = None\<rparr>]\<rparr>]"

definition demo_this :: Container where
  "demo_this = \<lparr>frames = demo_frames, instancesMap = Map.empty, masks = [], children = [],
                 addChildren = []\<rparr>"

definition demo_world :: "demo_state World" where
  "demo_world = \<lparr>heap = [], calls = []\<rparr>"

section \<open>Lemmas about Shape\<close>

subsection \<open>The rounding pass is an elementwise map\<close>

lemma forEach_round_length [simp]: "length (forEach_round k ds) = length ds"
proof (induction k ds rule: forEach_round.induct)
  case (1 k ds)
  show ?case
  proof (cases "k < length ds")
    case True
    then show ?thesis
      using "1.IH" by (subst forEach_round.simps) (simp split: val.splits)
  next
    case False
    then show ?thesis by (subst forEach_round.simps) simp
  qed
qed

lemma forEach_round_take_drop:
  "k \<le> length ds \<Longrightarrow>
   forEach_round k ds = take k ds @ map round2 (drop k ds)"
proof (induction k ds rule: forEach_round.induct)
  case (1 k ds)
  show ?case
  proof (cases "k < length ds")
    case False
    with "1.prems" show ?thesis by (subst forEach_round.simps) simp
  next
    case True
    let ?c = "case ds ! k of
                Num x \<Rightarrow> ds[k := Num (Math_round (x * 100) / 100)]
              | _ \<Rightarrow> ds"
    have c: "?c = ds[k := round2 (ds ! k)]"
    proof (cases "ds ! k")
      case (Num x)
      then show ?thesis by (simp add: round2_def)
    next
      case (Str s)
      then show ?thesis by (simp add: round2_def) (metis list_update_id)
    next
      case Undefined
      then show ?thesis by (simp add: round2_def) (metis list_update_id)
    qed
    have len: "length ?c = length ds" by (simp split: val.splits)
    have "forEach_round k ds = forEach_round (k + 1) ?c"
      using True by (subst forEach_round.simps) simp
    also have "\<dots> = take (k + 1) ?c @ map round2 (drop (k + 1) ?c)"
      using "1.IH" [OF True] True len by simp
    also have "\<dots> = take k ds @ map round2 (drop k ds)"
      using True unfolding c
      by (simp add: take_Suc_conv_app_nth Cons_nth_drop_Suc [symmetric])
    finally show ?thesis .
  qed
qed

lemma forEach_round_map: "forEach_round 0 ds = map round2 ds"
  using forEach_round_take_drop [of 0 ds] by simp

lemma interleave_cp_Cons:
  "interleave_cp (s # ss) = s @ concat (map (\<lambda>t. Str ''cp'' # t) ss)"
  by (induction ss arbitrary: s) simp_all

lemma Shape_loop_Suc:
  "Shape_loop (Suc j) ps visited draw0 =
     (visited @ map (\<lambda>p. p\<lparr>d := map round2 (d p)\<rparr>) ps,
      draw0 @ concat (map (\<lambda>p. Str ''cp'' # segment p) ps))"
  by (induction ps arbitrary: j visited draw0)
     (simp_all add: forEach_round_map segment_def style_def)

lemma Shape_loop_0:
  "Shape_loop 0 ps [] [] =
     (map (\<lambda>p. p\<lparr>d := map round2 (d p)\<rparr>) ps, interleave_cp (map segment ps))"
proof (cases ps)
  case Nil
  then show ?thesis by simp
next
  case (Cons p qs)
  show ?thesis
    unfolding Cons
    by (simp add: Shape_loop_Suc interleave_cp_Cons forEach_round_map segment_def style_def
          comp_def)
qed

lemma length_interleave_cp:
  "ss \<noteq> [] \<Longrightarrow> length (interleave_cp ss) = (length ss - 1) + sum_list (map length ss)"
  by (induction ss rule: interleave_cp.induct) simp_all

lemma count_interleave_cp:
  "ss \<noteq> [] \<Longrightarrow>
   count_list (interleave_cp ss) (Str ''cp'')
     = (length ss - 1) + sum_list (map (\<lambda>s. count_list s (Str ''cp'')) ss)"
  by (induction ss rule: interleave_cp.induct) simp_all




lemma new_Shape_paths:
  "shape_paths (fst (new_Shape data)) = map (\<lambda>p. p\<lparr>d := map round2 (d p)\<rparr>) (paths data)"
  by (simp add: new_Shape_def Shape_loop_0)

lemma new_Shape_draw:
  "draw (fst (new_Shape data)) = interleave_cp (map segment (paths data))"
  by (simp add: new_Shape_def Shape_loop_0)

lemma new_Shape_data:
  "snd (new_Shape data) = data\<lparr>paths := map (\<lambda>p. p\<lparr>d := map round2 (d p)\<rparr>) (paths data)\<rparr>"
  by (simp add: new_Shape_def Shape_loop_0)

lemma map_fixed_iff: "map f xs = xs \<longleftrightarrow> (\<forall>x\<in>set xs. f x = x)"
  using map_eq_conv [of f xs "\<lambda>x. x"] by simp

lemma Path_d_update_fixed: "p\<lparr>d := ds\<rparr> = p \<longleftrightarrow> ds = d p"
  by (cases p) simp

lemma Data_paths_update_fixed: "data\<lparr>paths := ps\<rparr> = data \<longleftrightarrow> ps = paths data"
  by (cases data) simp

section \<open>Claims about Shape\<close>




text \<open>
  Claim C9, as the code has it. For a Shape made of \<open>N \<ge> 1\<close> paths the draw sequence is the
  first path's segment, then for each further path one \<^verbatim>\<open>cp\<close> and that path's segment: the
  constructor puts in \<open>N - 1\<close> opcodes \<^verbatim>\<open>cp\<close>, one at each boundary and none before the first
  path. The draw sequence holds these and every \<^verbatim>\<open>cp\<close> the paths' own data carry, so
  exactly \<open>N - 1\<close> when the data carry none. A segment is \<^verbatim>\<open>s\<close>, color, thickness, alpha
  for a stroke and \<^verbatim>\<open>f\<close>, color, alpha for a fill, then the path's \<^verbatim>\<open>d\<close> values after
  rounding, in order.
\<close>

theorem Shape_draw_segments:
  assumes "paths data \<noteq> []"
  shows "draw (fst (new_Shape data))
           = segment (hd (paths data))
             @ concat (map (\<lambda>p. Str ''cp'' # segment p) (tl (paths data))) \<and>
         draw (fst (new_Shape data)) = interleave_cp (map segment (paths data)) \<and>
         length (draw (fst (new_Shape data)))
           = (length (paths data) - 1) + sum_list (map (\<lambda>p. length (segment p)) (paths data)) \<and>
         count_list (draw (fst (new_Shape data))) (Str ''cp'')
           = (length (paths data) - 1)
             + sum_list (map (\<lambda>p. count_list (segment p) (Str ''cp'')) (paths data)) \<and>
         ((\<forall>p \<in> set (paths data). Str ''cp'' \<notin> set (segment p)) \<longrightarrow>
            count_list (draw (fst (new_Shape data))) (Str ''cp'') = length (paths data) - 1) \<and>
         (\<forall>p \<in> set (paths data).
            segment p = (if stroke p then [Str ''s'', color p, thickness p, alpha p]
                         else [Str ''f'', color p, alpha p])
                        @ d (p\<lparr>d := forEach_round 0 (d p)\<rparr>))"
proof -
  obtain p qs where ps: "paths data = p # qs"
    using assms by (cases "paths data") auto
  have ne: "map segment (paths data) \<noteq> []" using assms by simp
  have 1: "draw (fst (new_Shape data)) = interleave_cp (map segment (paths data))"
    by (rule new_Shape_draw)
  have 2: "interleave_cp (map segment (paths data))
             = segment (hd (paths data))
               @ concat (map (\<lambda>p. Str ''cp'' # segment p) (tl (paths data)))"
    unfolding ps by (simp add: interleave_cp_Cons comp_def)
  have 3: "length (interleave_cp (map segment (paths data)))
             = (length (paths data) - 1) + sum_list (map (\<lambda>p. length (segment p)) (paths data))"
    using length_interleave_cp [OF ne] by (simp add: comp_def)
  have 4: "count_list (interleave_cp (map segment (paths data))) (Str ''cp'')
             = (length (paths data) - 1)
               + sum_list (map (\<lambda>p. count_list (segment p) (Str ''cp'')) (paths data))"
    using count_interleave_cp [OF ne] by (simp add: comp_def)
  have 5: "\<forall>p \<in> set (paths data).
            segment p = (if stroke p then [Str ''s'', color p, thickness p, alpha p]
                         else [Str ''f'', color p, alpha p])
                        @ d (p\<lparr>d := forEach_round 0 (d p)\<rparr>)"
    by (simp add: segment_def style_def forEach_round_map)
  have 6: "(\<forall>p \<in> set (paths data). Str ''cp'' \<notin> set (segment p)) \<longrightarrow>
            count_list (interleave_cp (map segment (paths data))) (Str ''cp'')
              = length (paths data) - 1"
  proof
    assume "\<forall>p \<in> set (paths data). Str ''cp'' \<notin> set (segment p)"
    then have "map (\<lambda>p. count_list (segment p) (Str ''cp'')) (paths data)
                 = map (\<lambda>p. 0) (paths data)"
      by (simp add: count_notin)
    then show "count_list (interleave_cp (map segment (paths data))) (Str ''cp'')
                 = length (paths data) - 1"
      unfolding 4 by simp
  qed
  show ?thesis using 1 2 3 4 5 6 by simp
qed

theorem Shape_draw_segments_witness:
  "paths \<lparr>data_id = ''3'', paths =
       [\<lparr>stroke = True, color = Str ''#f00'', thickness = Num 2, alpha = Num 1,
         d = [Str ''m'', Num 0, Num (1 / 3)]\<rparr>,
        \<lparr>stroke = False, color = Str ''#0f0'', thickness = Undefined, alpha = Num (1 / 2),
         d = [Str ''l'', Num (5 / 2)]\<rparr>]\<rparr> \<noteq> [] \<and>
   draw (fst (new_Shape \<lparr>data_id = ''3'', paths =
       [\<lparr>stroke = True, color = Str ''#f00'', thickness = Num 2, alpha = Num 1,
         d = [Str ''m'', Num 0, Num (1 / 3)]\<rparr>,
        \<lparr>stroke = False, color = Str ''#0f0'', thickness = Undefined, alpha = Num (1 / 2),
         d = [Str ''l'', Num (5 / 2)]\<rparr>]\<rparr>))
     = [Str ''s'', Str ''#f00'', Num 2, Num 1, Str ''m'', Num 0, Num (33 / 100),
        Str ''cp'',
        Str ''f'', Str ''#0f0'', Num (1 / 2), Str ''l'', Num (5 / 2)]"
proof -
  let ?D = "\<lparr>data_id = ''3'', paths =
       [\<lparr>stroke = True, color = Str ''#f00'', thickness = Num 2, alpha = Num 1,
         d = [Str ''m'', Num 0, Num (1 / 3)]\<rparr>,
        \<lparr>stroke = False, color = Str ''#0f0'', thickness = Undefined, alpha = Num (1 / 2),
         d = [Str ''l'', Num (5 / 2)]\<rparr>]\<rparr>"
  have h: "paths ?D \<noteq> []" by simp
  have e: "interleave_cp (map segment (paths ?D))
     = [Str ''s'', Str ''#f00'', Num 2, Num 1, Str ''m'', Num 0, Num (33 / 100),
        Str ''cp'',
        Str ''f'', Str ''#0f0'', Num (1 / 2), Str ''l'', Num (5 / 2)]"
    by code_simp
  from Shape_draw_segments [OF h] have
    "draw (fst (new_Shape ?D)) = interleave_cp (map segment (paths ?D))" by blast
  with e h show ?thesis by simp
qed

text \<open>
  Claim C9 as the specification words it (the draw sequence holds exactly \<open>N - 1\<close> opcodes
  \<^verbatim>\<open>cp\<close>) fails when a path's own \<^verbatim>\<open>d\<close> carries a \<^verbatim>\<open>cp\<close>: one path, no boundary, and one
  \<^verbatim>\<open>cp\<close> in the draw sequence.
\<close>

theorem Shape_cp_count_not_boundaries:
  "length (paths \<lparr>data_id = ''3'', paths =
       [\<lparr>stroke = False, color = Str ''#0f0'', thickness = Undefined, alpha = Num 1,
         d = [Str ''m'', Num 0, Num 0, Str ''l'', Num 1, Num 1, Str ''cp'']\<rparr>]\<rparr>) = 1 \<and>
   draw (fst (new_Shape \<lparr>data_id = ''3'', paths =
       [\<lparr>stroke = False, color = Str ''#0f0'', thickness = Undefined, alpha = Num 1,
         d = [Str ''m'', Num 0, Num 0, Str ''l'', Num 1, Num 1, Str ''cp'']\<rparr>]\<rparr>))
     = [Str ''f'', Str ''#0f0'', Num 1,
        Str ''m'', Num 0, Num 0, Str ''l'', Num 1, Num 1, Str ''cp''] \<and>
   count_list (draw (fst (new_Shape \<lparr>data_id = ''3'', paths =
       [\<lparr>stroke = False, color = Str ''#0f0'', thickness = Undefined, alpha = Num 1,
         d = [Str ''m'', Num 0, Num 0, Str ''l'', Num 1, Num 1, Str ''cp'']\<rparr>]\<rparr>)))
     (Str ''cp'') = 1"
  by code_simp

text \<open>
  Claim C10. Constructing a Shape changes the data it is given: every path of the caller's
  data comes back with each numeric entry of its \<^verbatim>\<open>d\<close> replaced by the rounded value, the
  other entries and the other fields of the path as they were; the Shape's own paths are
  these same paths. The data are left as they were only when no entry of any \<^verbatim>\<open>d\<close> is
  changed by rounding.
\<close>

theorem Shape_mutates_input:
  "snd (new_Shape data)
     = data\<lparr>paths := map (\<lambda>p. p\<lparr>d := map round2 (d p)\<rparr>) (paths data)\<rparr> \<and>
   shape_paths (fst (new_Shape data)) = paths (snd (new_Shape data)) \<and>
   (snd (new_Shape data) = data \<longleftrightarrow> (\<forall>p \<in> set (paths data). \<forall>v \<in> set (d p). round2 v = v))"
proof -
  have "snd (new_Shape data) = data \<longleftrightarrow>
          map (\<lambda>p. p\<lparr>d := map round2 (d p)\<rparr>) (paths data) = paths data"
    unfolding new_Shape_data by (rule Data_paths_update_fixed)
  also have "\<dots> \<longleftrightarrow> (\<forall>p \<in> set (paths data). map round2 (d p) = d p)"
    by (simp add: map_fixed_iff Path_d_update_fixed)
  also have "\<dots> \<longleftrightarrow> (\<forall>p \<in> set (paths data). \<forall>v \<in> set (d p). round2 v = v)"
    by (simp add: map_fixed_iff)
  finally show ?thesis
    by (simp add: new_Shape_data new_Shape_paths)
qed

theorem Shape_mutates_input_witness:
  "snd (new_Shape \<lparr>data_id = ''3'', paths =
       [\<lparr>stroke = False, color = Str ''#0f0'', thickness = Undefined, alpha = Num 1,
         d = [Str ''m'', Num (1 / 3)]\<rparr>]\<rparr>)
     = \<lparr>data_id = ''3'', paths =
       [\<lparr>stroke = False, color = Str ''#0f0'', thickness = Undefined, alpha = Num 1,
         d = [Str ''m'', Num (33 / 100)]\<rparr>]\<rparr> \<and>
   snd (new_Shape \<lparr>data_id = ''3'', paths =
       [\<lparr>stroke = False, color = Str ''#0f0'', thickness = Undefined, alpha = Num 1,
         d = [Str ''m'', Num (1 / 3)]\<rparr>]\<rparr>)
     \<noteq> \<lparr>data_id = ''3'', paths =
       [\<lparr>stroke = False, color = Str ''#0f0'', thickness = Undefined, alpha = Num 1,
         d = [Str ''m'', Num (1 / 3)]\<rparr>]\<rparr>"
proof -
  let ?D = "\<lparr>data_id = ''3'', paths =
       [\<lparr>stroke = False, color = Str ''#0f0'', thickness = Undefined, alpha = Num 1,
         d = [Str ''m'', Num (1 / 3)]\<rparr>]\<rparr>"
  have r: "round2 (Num (1 / 3)) = Num (33 / 100)" by code_simp
  have s: "round2 (Str ''m'') = Str ''m''" by (simp add: round2_def)
  from Shape_mutates_input [of ?D] r s show ?thesis by simp
qed

section \<open>Lemmas about Container\<close>

subsection \<open>Rendering\<close>

lemma scan_masks_find:
  "scan_masks api h ms inst =
     (case find (\<lambda>e. entry_instance e = inst) ms of
        None \<Rightarrow> Inr None
      | Some e \<Rightarrow> (case entry_mask e of
                     None \<Rightarrow> Inl TypeError
                   | Some m \<Rightarrow> Inr (Some (localName api (state (h ! m))))))"
  by (induction ms) simp_all

lemma scan_masks_Inr:
  "scan_masks api h ms (Some r) = Inr m \<Longrightarrow> m = mask_of api h ms r"
  by (auto simp: scan_masks_find mask_of_def split: option.splits)

lemma scan_masks_defined:
  "\<forall>e \<in> set ms. entry_mask e \<noteq> None \<Longrightarrow> \<exists>m. scan_masks api h ms inst = Inr m"
  by (induction ms) auto

lemma renderInstance_Inr:
  assumes "renderInstance api h renderer this inst = Inr (s, this')"
  shows "\<exists>r. inst = Some r \<and>
             this' = this\<lparr>addChildren := addChildren this @ [name_of api h r]\<rparr> \<and>
             s = fragment api h renderer (masks this) r"
  using assms
  by (auto simp: renderInstance_def getMaskByInstance_def name_of_def fragment_def Let_def
           split: option.splits sum.splits dest: scan_masks_Inr)

lemma renderInstance_defined:
  assumes "\<forall>e \<in> set (masks this). entry_mask e \<noteq> None"
  shows "\<exists>s. renderInstance api h renderer this (Some r)
               = Inr (s, this\<lparr>addChildren := addChildren this @ [name_of api h r]\<rparr>)"
  using scan_masks_defined [OF assms, of api h "Some r"]
  by (auto simp: renderInstance_def getMaskByInstance_def name_of_def Let_def)

lemma renderChildrenMasks_loop_Inr:
  "renderChildrenMasks_loop api h renderer es buffer this = Inr (buf, this') \<Longrightarrow>
   (\<forall>e \<in> set es. entry_mask e \<noteq> None) \<and>
   buf = buffer @ concat (map (\<lambda>e. fragment api h renderer (masks this) (the (entry_mask e))) es) \<and>
   this' = this\<lparr>addChildren :=
              addChildren this @ map (\<lambda>e. name_of api h (the (entry_mask e))) es\<rparr>"
proof (induction es arbitrary: buffer this)
  case Nil
  then show ?case by simp
next
  case (Cons e es)
  from Cons.prems obtain s this1 where
    1: "renderInstance api h renderer this (entry_mask e) = Inr (s, this1)" and
    2: "renderChildrenMasks_loop api h renderer es (buffer @ s) this1 = Inr (buf, this')"
    by (auto split: sum.splits)
  from renderInstance_Inr [OF 1] obtain r where
    r: "entry_mask e = Some r"
       "this1 = this\<lparr>addChildren := addChildren this @ [name_of api h r]\<rparr>"
       "s = fragment api h renderer (masks this) r"
    by blast
  from Cons.IH [OF 2] r show ?case by simp
qed

lemma renderChildren_loop_Inr:
  "renderChildren_loop api h renderer rs buffer this = Inr (buf, this') \<Longrightarrow>
   buf = buffer @ concat (map (fragment api h renderer (masks this)) rs) \<and>
   this' = this\<lparr>addChildren := addChildren this @ map (name_of api h) rs\<rparr>"
proof (induction rs arbitrary: buffer this)
  case Nil
  then show ?case by simp
next
  case (Cons r rs)
  from Cons.prems obtain s this1 where
    1: "renderInstance api h renderer this (Some r) = Inr (s, this1)" and
    2: "renderChildren_loop api h renderer rs (buffer @ s) this1 = Inr (buf, this')"
    by (auto split: sum.splits)
  from renderInstance_Inr [OF 1] have
    r: "this1 = this\<lparr>addChildren := addChildren this @ [name_of api h r]\<rparr>"
       "s = fragment api h renderer (masks this) r"
    by auto
  from Cons.IH [OF 2] r show ?case by simp
qed

lemma renderChildrenMasks_loop_defined:
  "\<forall>e \<in> set (masks this). entry_mask e \<noteq> None \<Longrightarrow> \<forall>e \<in> set es. entry_mask e \<noteq> None \<Longrightarrow>
   \<exists>res. renderChildrenMasks_loop api h renderer es buffer this = Inr res"
proof (induction es arbitrary: buffer this)
  case Nil
  then show ?case by simp
next
  case (Cons e es)
  from Cons.prems obtain r where r: "entry_mask e = Some r" by auto
  from renderInstance_defined [OF Cons.prems(1), of api h renderer r] obtain s where
    s: "renderInstance api h renderer this (Some r)
          = Inr (s, this\<lparr>addChildren := addChildren this @ [name_of api h r]\<rparr>)" ..
  have "\<exists>res. renderChildrenMasks_loop api h renderer es (buffer @ s)
                 (this\<lparr>addChildren := addChildren this @ [name_of api h r]\<rparr>) = Inr res"
    using Cons.prems by (intro Cons.IH) simp_all
  then show ?case using r s by simp
qed

lemma renderChildren_loop_defined:
  "\<forall>e \<in> set (masks this). entry_mask e \<noteq> None \<Longrightarrow>
   \<exists>res. renderChildren_loop api h renderer rs buffer this = Inr res"
proof (induction rs arbitrary: buffer this)
  case Nil
  then show ?case by simp
next
  case (Cons r rs)
  from renderInstance_defined [OF Cons.prems(1), of api h renderer r] obtain s where
    s: "renderInstance api h renderer this (Some r)
          = Inr (s, this\<lparr>addChildren := addChildren this @ [name_of api h r]\<rparr>)" ..
  have "\<exists>res. renderChildren_loop api h renderer rs (buffer @ s)
                 (this\<lparr>addChildren := addChildren this @ [name_of api h r]\<rparr>) = Inr res"
    using Cons.prems by (intro Cons.IH) simp_all
  then show ?case using s by simp
qed

lemma renderAddChildren_eq:
  "renderAddChildren renderer this =
     (if addChildren this = [] then []
      else ''this.'' @ (if compress renderer then ''ac'' else ''addChild'') @ ''(''
           @ join '', '' (addChildren this) @ '');'')"
  by (simp add: renderAddChildren_def)

lemma getContents_Inr:
  assumes "getContents api h renderer this = Inr (buf, this')"
  shows "(\<forall>e \<in> set (masks this). entry_mask e \<noteq> None) \<and>
         this' = this\<lparr>addChildren :=
                   addChildren this @ map (\<lambda>e. name_of api h (the (entry_mask e))) (masks this)
                     @ map (name_of api h) (children this)\<rparr> \<and>
         buf = concat (map (\<lambda>e. fragment api h renderer (masks this) (the (entry_mask e)))
                           (masks this))
               @ concat (map (fragment api h renderer (masks this)) (children this))
               @ renderAddChildren renderer this'"
proof -
  from assms obtain pre this1 mid this2 where
    1: "renderChildrenMasks_loop api h renderer (masks this) [] this = Inr (pre, this1)" and
    2: "renderChildren_loop api h renderer (children this1) [] this1 = Inr (mid, this2)" and
    3: "buf = pre @ mid @ renderAddChildren renderer this2" "this' = this2"
    by (auto simp: getContents_def renderChildrenMasks_def renderChildren_def Let_def
             split: sum.splits)
  note a = renderChildrenMasks_loop_Inr [OF 1]
  note b = renderChildren_loop_Inr [OF 2]
  from a have m1: "masks this1 = masks this" "children this1 = children this" by simp_all
  show ?thesis using a b 3 m1 by simp
qed

lemma getContents_defined:
  assumes "\<forall>e \<in> set (masks this). entry_mask e \<noteq> None"
  shows "\<exists>res. getContents api h renderer this = Inr res"
proof -
  from renderChildrenMasks_loop_defined [OF assms assms, of api h renderer "[]"]
  obtain pre this1 where
    1: "renderChildrenMasks_loop api h renderer (masks this) [] this = Inr (pre, this1)"
    by auto
  from renderChildrenMasks_loop_Inr [OF 1] have "masks this1 = masks this" by simp
  with assms have "\<forall>e \<in> set (masks this1). entry_mask e \<noteq> None" by simp
  from renderChildren_loop_defined [OF this, of api h renderer "children this1" "[]"]
  obtain res where 2: "renderChildren_loop api h renderer (children this1) [] this1 = Inr res"
    by auto
  show ?thesis using 1 2
    by (cases res) (simp add: getContents_def renderChildrenMasks_def renderChildren_def)
qed

subsection \<open>The walk over the commands\<close>

lemma visit_all_append:
  "visit_all api (xs @ ys) s =
     (case visit_all api xs s of Inl e \<Rightarrow> Inl e | Inr s' \<Rightarrow> visit_all api ys s')"
  by (induction xs arbitrary: s) (auto split: sum.splits)

lemma forEach_command_visit_all:
  "forEach_command api fr cs s = visit_all api (map (\<lambda>c. (fr, c)) cs) s"
  by (induction cs arbitrary: s) (auto split: sum.splits)

lemma forEach_frame_walk: "forEach_frame api fs s = visit_all api (walk fs) s"
proof (induction fs arbitrary: s)
  case Nil
  then show ?case by (simp add: walk_def)
next
  case (Cons f fs)
  have w: "walk (f # fs) = map (\<lambda>c. (frame f, c)) (commands f) @ walk fs"
    by (simp add: walk_def)
  show ?case
    unfolding w visit_all_append
    by (simp add: forEach_command_visit_all Cons.IH split: sum.splits)
qed

lemma created_append: "created (xs @ ys) = created xs @ created ys"
  by (induction xs rule: created.induct) simp_all

lemma attached_append: "attached (xs @ ys) = attached xs @ attached ys"
  by (induction xs rule: attached.induct) simp_all

lemma emit_fields:
  "instancesMap (emit this es) = instancesMap this \<and> frames (emit this es) = frames this \<and>
   children (emit this es) = children this \<and> addChildren (emit this es) = addChildren this"
  by (induction this es rule: emit.induct)
     (simp_all add: onMaskAdded_def onMaskRemoved_def Let_def)

lemma visit_command_old:
  assumes "visit_command api fr c (ch, this, w) = Inr (ch', this', w')"
    and "instancesMap this (instanceId c) = Some r"
  shows "instancesMap this' = instancesMap this"
    and "calls w' = calls w @ [AddToFrame r fr c]"
    and "\<exists>st. heap w' = (heap w)[r := (heap w ! r)\<lparr>state := st\<rparr>]"
    and "ch' = (if \<not> isSoundInstance (heap w ! r) \<and> r \<notin> set ch then ch @ [r] else ch)"
    and "frames this' = frames this"
  using assms
  by (auto simp: visit_command_def lookup_or_create_def Let_def emit_fields
           split: prod.splits)

lemma visit_command_new:
  assumes "visit_command api fr c (ch, this, w) = Inr (ch', this', w')"
    and "instancesMap this (instanceId c) = None"
  shows "instancesMap this' = (instancesMap this)(instanceId c \<mapsto> length (heap w))"
    and "calls w' = calls w @ [CreateInstance (assetId c) (instanceId c),
                               AddToFrame (length (heap w)) fr c]"
    and "\<exists>obj st. createInstance api (assetId c) (instanceId c) = Inr obj \<and>
                  heap w' = heap w @ [obj\<lparr>state := st\<rparr>]"
    and "ch' = (if \<not> isSoundInstance (heap w' ! length (heap w)) \<and> length (heap w) \<notin> set ch
                then ch @ [length (heap w)] else ch)"
    and "frames this' = frames this"
  using assms
  by (auto simp: visit_command_def lookup_or_create_def Let_def emit_fields
           split: prod.splits sum.splits)

lemma update_state_class:
  "isSoundInstance ((h[r := (h ! r)\<lparr>state := st\<rparr>]) ! q) = isSoundInstance (h ! q)"
  by (cases "r < length h") (simp_all add: nth_list_update list_update_beyond)

lemma visit_command_step:
  assumes "visit_command api fr c (ch, this, w) = Inr (ch1, this1, w1)"
  shows "instancesMap this1 =
           (if instanceId c \<in> dom (instancesMap this) then instancesMap this
            else (instancesMap this)(instanceId c \<mapsto> length (heap w)))"
    and "length (heap w1) =
           (if instanceId c \<in> dom (instancesMap this) then length (heap w)
            else Suc (length (heap w)))"
    and "\<forall>q < length (heap w). isSoundInstance (heap w1 ! q) = isSoundInstance (heap w ! q)"
    and "created (calls w1) = created (calls w) @
           (if instanceId c \<in> dom (instancesMap this) then [] else [(assetId c, instanceId c)])"
    and "attached (calls w1) = attached (calls w) @
           [(the (instancesMap this1 (instanceId c)), fr, c)]"
    and "ch1 = (if \<not> isSoundInstance (heap w1 ! the (instancesMap this1 (instanceId c))) \<and>
                   the (instancesMap this1 (instanceId c)) \<notin> set ch
                then ch @ [the (instancesMap this1 (instanceId c))] else ch)"
    and "frames this1 = frames this"
proof -
  show "instancesMap this1 =
           (if instanceId c \<in> dom (instancesMap this) then instancesMap this
            else (instancesMap this)(instanceId c \<mapsto> length (heap w)))"
    using visit_command_old(1) [OF assms] visit_command_new(1) [OF assms]
    by (cases "instancesMap this (instanceId c)") auto
  show "length (heap w1) =
           (if instanceId c \<in> dom (instancesMap this) then length (heap w)
            else Suc (length (heap w)))"
    using visit_command_old(3) [OF assms] visit_command_new(3) [OF assms]
    by (cases "instancesMap this (instanceId c)") auto
  show "\<forall>q < length (heap w). isSoundInstance (heap w1 ! q) = isSoundInstance (heap w ! q)"
    using visit_command_old(3) [OF assms] visit_command_new(3) [OF assms]
    by (cases "instancesMap this (instanceId c)")
       (auto simp: update_state_class nth_append)
  show "created (calls w1) = created (calls w) @
           (if instanceId c \<in> dom (instancesMap this) then [] else [(assetId c, instanceId c)])"
    using visit_command_old(2) [OF assms] visit_command_new(2) [OF assms]
    by (cases "instancesMap this (instanceId c)") (auto simp: created_append)
  show "attached (calls w1) = attached (calls w) @
           [(the (instancesMap this1 (instanceId c)), fr, c)]"
    using visit_command_old(1,2) [OF assms] visit_command_new(1,2) [OF assms]
    by (cases "instancesMap this (instanceId c)") (auto simp: attached_append)
  show "ch1 = (if \<not> isSoundInstance (heap w1 ! the (instancesMap this1 (instanceId c))) \<and>
                   the (instancesMap this1 (instanceId c)) \<notin> set ch
                then ch @ [the (instancesMap this1 (instanceId c))] else ch)"
  proof (cases "instancesMap this (instanceId c)")
    case None
    from visit_command_new(1,4) [OF assms None] show ?thesis by simp
  next
    case (Some r)
    from visit_command_old(3) [OF assms Some] obtain st where
      "heap w1 = (heap w)[r := (heap w ! r)\<lparr>state := st\<rparr>]" ..
    then have "isSoundInstance (heap w1 ! r) = isSoundInstance (heap w ! r)"
      by (simp add: update_state_class)
    with visit_command_old(1,4) [OF assms Some] Some show ?thesis by simp
  qed
  show "frames this1 = frames this"
    using visit_command_old(5) [OF assms] visit_command_new(5) [OF assms]
    by (cases "instancesMap this (instanceId c)") auto
qed



lemma visit_all_basic:
  "visit_all api xs (ch, this, w) = Inr (ch', this', w') \<Longrightarrow>
   (\<forall>i r. instancesMap this i = Some r \<longrightarrow> instancesMap this' i = Some r) \<and>
   dom (instancesMap this') = dom (instancesMap this) \<union> instanceId ` snd ` set xs \<and>
   length (heap w') = length (heap w) + length (first_ids (dom (instancesMap this)) (map snd xs)) \<and>
   (\<forall>q < length (heap w). isSoundInstance (heap w' ! q) = isSoundInstance (heap w ! q)) \<and>
   created (calls w') = created (calls w) @
     map (\<lambda>c. (assetId c, instanceId c)) (first_ids (dom (instancesMap this)) (map snd xs)) \<and>
   frames this' = frames this"
proof (induction xs arbitrary: ch this w)
  case Nil
  then show ?case by simp
next
  case (Cons x xs)
  obtain fr c where x: "x = (fr, c)" by (cases x)
  from Cons.prems obtain ch1 this1 w1 where
    1: "visit_command api fr c (ch, this, w) = Inr (ch1, this1, w1)" and
    2: "visit_all api xs (ch1, this1, w1) = Inr (ch', this', w')"
    unfolding x by (auto split: sum.splits)
  note s = visit_command_step [OF 1]
  note ih = Cons.IH [OF 2]
  show ?case
  proof (cases "instanceId c \<in> dom (instancesMap this)")
    case True
    with s have m: "instancesMap this1 = instancesMap this"
      and l: "length (heap w1) = length (heap w)"
      and cr: "created (calls w1) = created (calls w)" by simp_all
    from ih s(3,7) True show ?thesis
      unfolding x m l cr by auto
  next
    case False
    with s have m: "instancesMap this1 = (instancesMap this)(instanceId c \<mapsto> length (heap w))"
      and l: "length (heap w1) = Suc (length (heap w))"
      and cr: "created (calls w1) = created (calls w) @ [(assetId c, instanceId c)]" by simp_all
    have d: "dom (instancesMap this1) = insert (instanceId c) (dom (instancesMap this))"
      unfolding m by simp
    have mono: "\<forall>i r. instancesMap this i = Some r \<longrightarrow> instancesMap this1 i = Some r"
      unfolding m using False by auto
    from ih s(3,7) False mono show ?thesis
      unfolding x d l cr by auto
  qed
qed

lemma visit_all_attached:
  "visit_all api xs (ch, this, w) = Inr (ch', this', w') \<Longrightarrow>
   attached (calls w') = attached (calls w) @
     map (\<lambda>(fr, c). (the (instancesMap this' (instanceId c)), fr, c)) xs"
proof (induction xs arbitrary: ch this w)
  case Nil
  then show ?case by simp
next
  case (Cons x xs)
  obtain fr c where x: "x = (fr, c)" by (cases x)
  from Cons.prems obtain ch1 this1 w1 where
    1: "visit_command api fr c (ch, this, w) = Inr (ch1, this1, w1)" and
    2: "visit_all api xs (ch1, this1, w1) = Inr (ch', this', w')"
    unfolding x by (auto split: sum.splits)
  note s = visit_command_step [OF 1]
  from s(1) have "instanceId c \<in> dom (instancesMap this1)" by (auto split: if_splits)
  then obtain r where r: "instancesMap this1 (instanceId c) = Some r" by auto
  with visit_all_basic [OF 2] have "instancesMap this' (instanceId c) = Some r" by blast
  with r s(5) Cons.IH [OF 2] show ?case unfolding x by simp
qed


lemma visit_all_candidates:
  assumes "visit_all api xs (ch, this, w) = Inr (ch', this', w')"
    and "\<forall>i r. instancesMap this i = Some r \<longrightarrow> r < length (heap w)"
    and "\<forall>r. r \<in> set ch \<longleftrightarrow> (\<exists>i. instancesMap this i = Some r) \<and> \<not> isSoundInstance (heap w ! r)"
  shows "(\<forall>i r. instancesMap this' i = Some r \<longrightarrow> r < length (heap w')) \<and>
         (\<forall>r. r \<in> set ch' \<longleftrightarrow>
               (\<exists>i. instancesMap this' i = Some r) \<and> \<not> isSoundInstance (heap w' ! r)) \<and>
         ch' = ch @ map (\<lambda>c. the (instancesMap this' (instanceId c)))
                     (filter (\<lambda>c. \<not> isSoundInstance (heap w' ! the (instancesMap this' (instanceId c))))
                        (first_ids (dom (instancesMap this)) (map snd xs)))"
  using assms
proof (induction xs arbitrary: ch this w)
  case Nil
  then show ?case by simp
next
  case (Cons x xs)
  obtain fr c where x: "x = (fr, c)" by (cases x)
  from Cons.prems(1) obtain ch1 this1 w1 where
    1: "visit_command api fr c (ch, this, w) = Inr (ch1, this1, w1)" and
    2: "visit_all api xs (ch1, this1, w1) = Inr (ch', this', w')"
    unfolding x by (auto split: sum.splits)
  note s = visit_command_step [OF 1]
  note b = visit_all_basic [OF 2]
  show ?case
  proof (cases "instanceId c \<in> dom (instancesMap this)")
    case True
    then obtain r where r: "instancesMap this (instanceId c) = Some r" by auto
    with Cons.prems(2) have rl: "r < length (heap w)" by blast
    from True s have m: "instancesMap this1 = instancesMap this"
      and l: "length (heap w1) = length (heap w)" by simp_all
    have cls: "\<forall>q < length (heap w). isSoundInstance (heap w1 ! q) = isSoundInstance (heap w ! q)"
      by (rule s(3))
    have ch1: "ch1 = ch"
      using s(6) Cons.prems(3) r rl cls unfolding m by auto
    have inv1: "\<forall>i r. instancesMap this1 i = Some r \<longrightarrow> r < length (heap w1)"
      using Cons.prems(2) unfolding m l by simp
    have inv2: "\<forall>r. r \<in> set ch1 \<longleftrightarrow>
                 (\<exists>i. instancesMap this1 i = Some r) \<and> \<not> isSoundInstance (heap w1 ! r)"
      using Cons.prems(2,3) cls unfolding m ch1 by auto
    note ih = Cons.IH [OF 2 inv1 inv2]
    from ih have A: "\<forall>i r. instancesMap this' i = Some r \<longrightarrow> r < length (heap w')"
      and B: "\<forall>r. r \<in> set ch' \<longleftrightarrow>
               (\<exists>i. instancesMap this' i = Some r) \<and> \<not> isSoundInstance (heap w' ! r)"
      by blast+
    from ih have "ch' = ch1 @ map (\<lambda>c. the (instancesMap this' (instanceId c)))
                     (filter (\<lambda>c. \<not> isSoundInstance (heap w' ! the (instancesMap this' (instanceId c))))
                        (first_ids (dom (instancesMap this1)) (map snd xs)))"
      by blast
    then have C: "ch' = ch @ map (\<lambda>c. the (instancesMap this' (instanceId c)))
                     (filter (\<lambda>c. \<not> isSoundInstance (heap w' ! the (instancesMap this' (instanceId c))))
                        (first_ids (dom (instancesMap this)) (map snd (x # xs))))"
      using True unfolding x m ch1 by simp
    from A B C show ?thesis by (intro conjI)
  next
    case False
    let ?n = "length (heap w)"
    from False s have m: "instancesMap this1 = (instancesMap this)(instanceId c \<mapsto> ?n)"
      and l: "length (heap w1) = Suc ?n" by simp_all
    have d: "dom (instancesMap this1) = insert (instanceId c) (dom (instancesMap this))"
      unfolding m by simp
    have cls: "\<forall>q < ?n. isSoundInstance (heap w1 ! q) = isSoundInstance (heap w ! q)"
      by (rule s(3))
    have fresh: "?n \<notin> set ch"
      using Cons.prems(2,3) by auto
    have ch1: "ch1 = ch @ (if \<not> isSoundInstance (heap w1 ! ?n) then [?n] else [])"
      using s(6) fresh unfolding m by simp
    have inv1: "\<forall>i r. instancesMap this1 i = Some r \<longrightarrow> r < length (heap w1)"
      using Cons.prems(2) unfolding m l by (auto simp: less_Suc_eq)
    have none: "instancesMap this (instanceId c) = None" using False by auto
    have inv2: "\<forall>r. r \<in> set ch1 \<longleftrightarrow>
                 (\<exists>i. instancesMap this1 i = Some r) \<and> \<not> isSoundInstance (heap w1 ! r)"
    proof (intro allI iffI)
      fix r assume "r \<in> set ch1"
      then consider "r \<in> set ch" | "r = ?n" "\<not> isSoundInstance (heap w1 ! ?n)"
        unfolding ch1 by (auto split: if_splits)
      then show "(\<exists>i. instancesMap this1 i = Some r) \<and> \<not> isSoundInstance (heap w1 ! r)"
      proof cases
        case 1
        with Cons.prems(3) obtain i where i: "instancesMap this i = Some r"
          and ns: "\<not> isSoundInstance (heap w ! r)" by blast
        from i none have "i \<noteq> instanceId c" by auto
        with i have "instancesMap this1 i = Some r" unfolding m by simp
        moreover from i Cons.prems(2) have "r < ?n" by blast
        ultimately show ?thesis using ns cls by auto
      next
        case 2
        then show ?thesis unfolding m by auto
      qed
    next
      fix r assume a: "(\<exists>i. instancesMap this1 i = Some r) \<and> \<not> isSoundInstance (heap w1 ! r)"
      then obtain i where i: "instancesMap this1 i = Some r" by blast
      show "r \<in> set ch1"
      proof (cases "i = instanceId c")
        case True
        with i have "r = ?n" unfolding m by simp
        with a show ?thesis unfolding ch1 by simp
      next
        case False
        with i have i0: "instancesMap this i = Some r" unfolding m by simp
        with Cons.prems(2) have "r < ?n" by blast
        with a cls have "\<not> isSoundInstance (heap w ! r)" by simp
        with i0 Cons.prems(3) have "r \<in> set ch" by blast
        then show ?thesis unfolding ch1 by simp
      qed
    qed
    have "instancesMap this1 (instanceId c) = Some ?n" unfolding m by simp
    with b have here: "instancesMap this' (instanceId c) = Some ?n" by blast
    have "?n < length (heap w1)" unfolding l by simp
    with b have same: "isSoundInstance (heap w' ! ?n) = isSoundInstance (heap w1 ! ?n)" by blast
    note ih = Cons.IH [OF 2 inv1 inv2]
    from ih have A: "\<forall>i r. instancesMap this' i = Some r \<longrightarrow> r < length (heap w')"
      and B: "\<forall>r. r \<in> set ch' \<longleftrightarrow>
               (\<exists>i. instancesMap this' i = Some r) \<and> \<not> isSoundInstance (heap w' ! r)"
      by blast+
    from ih have "ch' = ch1 @ map (\<lambda>c. the (instancesMap this' (instanceId c)))
                     (filter (\<lambda>c. \<not> isSoundInstance (heap w' ! the (instancesMap this' (instanceId c))))
                        (first_ids (dom (instancesMap this1)) (map snd xs)))"
      by blast
    then have C: "ch' = ch @ map (\<lambda>c. the (instancesMap this' (instanceId c)))
                     (filter (\<lambda>c. \<not> isSoundInstance (heap w' ! the (instancesMap this' (instanceId c))))
                        (first_ids (dom (instancesMap this)) (map snd (x # xs))))"
      using False here same unfolding x d ch1 by simp
    from A B C show ?thesis by (intro conjI)
  qed
qed

lemma splice_loop_filter:
  "n \<le> length cs \<Longrightarrow>
   splice_loop rend cs (int n - 1) = Inr (filter rend (take n cs) @ drop n cs)"
proof (induction n arbitrary: cs)
  case 0
  show ?case by (subst splice_loop.simps) simp
next
  case (Suc n)
  then have n: "n < length cs" by simp
  let ?cs' = "if \<not> rend (cs ! n) then take n cs @ drop (n + 1) cs else cs"
  have len: "n \<le> length ?cs'" using n by (auto simp: min_def)
  have "splice_loop rend cs (int (Suc n) - 1) = splice_loop rend ?cs' (int n - 1)"
    using n by (subst splice_loop.simps) simp
  also have "\<dots> = Inr (filter rend (take n ?cs') @ drop n ?cs')"
    by (rule Suc.IH [OF len])
  also have "filter rend (take n ?cs') @ drop n ?cs'
               = filter rend (take (Suc n) cs) @ drop (Suc n) cs"
    using n by (simp add: take_Suc_conv_app_nth Cons_nth_drop_Suc)
  finally show ?case .
qed

lemma splice_loop_all:
  "splice_loop rend cs (int (length cs) - 1) = Inr (filter rend cs)"
  using splice_loop_filter [of "length cs" cs rend] by simp

lemma getChildren_Inr:
  assumes "getChildren api this w = Inr (ch, this', w')"
  shows "\<exists>cand. forEach_frame api (frames this) ([], this, w) = Inr (cand, this', w') \<and>
           ch = rev (filter (\<lambda>r. renderable api (state (heap w' ! r))) cand)"
  using assms
  by (auto simp: getChildren_def splice_loop_all split: sum.splits)

lemma visit_command_defined:
  assumes "instancesMap this (instanceId c) = None \<longrightarrow>
           (\<exists>obj. createInstance api (assetId c) (instanceId c) = Inr obj)"
  shows "\<exists>res. visit_command api fr c (ch, this, w) = Inr res"
  using assms
  by (cases "instancesMap this (instanceId c)")
     (auto simp: visit_command_def lookup_or_create_def Let_def split: prod.splits)

lemma visit_all_defined:
  assumes "\<forall>(fr, c) \<in> set xs. \<exists>obj. createInstance api (assetId c) (instanceId c) = Inr obj"
  shows "\<exists>res. visit_all api xs s = Inr res"
  using assms
proof (induction xs arbitrary: s)
  case Nil
  show ?case by (rule exI [of _ s]) simp
next
  case (Cons x xs)
  obtain fr c where x: "x = (fr, c)" by (cases x)
  obtain ch this w where s: "s = (ch, this, w)" by (metis prod_cases3)
  from Cons.prems have "\<exists>obj. createInstance api (assetId c) (instanceId c) = Inr obj"
    unfolding x by simp
  then obtain res where r: "visit_command api fr c (ch, this, w) = Inr res"
    using visit_command_defined [of this c api fr ch w] by blast
  from Cons.prems have "\<forall>(fr, c) \<in> set xs. \<exists>obj. createInstance api (assetId c) (instanceId c) = Inr obj"
    by simp
  from Cons.IH [OF this, of res] r show ?case unfolding x s by simp
qed

lemma getChildren_defined:
  assumes "\<forall>(fr, c) \<in> set (walk (frames this)).
             \<exists>obj. createInstance api (assetId c) (instanceId c) = Inr obj"
  shows "\<exists>res. getChildren api this w = Inr res"
proof -
  from visit_all_defined [OF assms, of "([], this, w)"] obtain res where
    "visit_all api (walk (frames this)) ([], this, w) = Inr res" ..
  then show ?thesis
    by (cases res) (simp add: getChildren_def forEach_frame_walk splice_loop_all)
qed

subsection \<open>The example, evaluated\<close>

lemma demo_run:
  "case getChildren demo_api demo_this demo_world of
     Inl e \<Rightarrow> False
   | Inr (ch, this', w') \<Rightarrow>
       ch = [3, 0] \<and>
       map (instancesMap this') [1, 2, 3, 4] = [Some 0, Some 1, Some 2, Some 3] \<and>
       masks this' = [\<lparr>entry_instance = Some 0, entry_mask = Some 2, entry_frame = 0,
                       entry_duration = Some 1\<rparr>] \<and>
       length (heap w') = 4 \<and>
       map isSoundInstance (heap w') = [False, True, False, False] \<and>
       map (\<lambda>obj. renderable demo_api (state obj)) (heap w') = [True, True, False, True] \<and>
       calls w' =
         [CreateInstance 5 1,
          AddToFrame 0 0 \<lparr>instanceId = 1, assetId = 5, maskTill = None\<rparr>,
          CreateInstance 0 2,
          AddToFrame 1 0 \<lparr>instanceId = 2, assetId = 0, maskTill = None\<rparr>,
          CreateInstance 6 3,
          AddToFrame 2 0 \<lparr>instanceId = 3, assetId = 6, maskTill = Some 1\<rparr>,
          AddToFrame 0 1 \<lparr>instanceId = 1, assetId = 5, maskTill = None\<rparr>,
          CreateInstance 7 4,
          AddToFrame 3 1 \<lparr>instanceId = 4, assetId = 7, maskTill = None\<rparr>,
          AddToFrame 2 1 \<lparr>instanceId = 3, assetId = 6, maskTill = None\<rparr>]"
  by code_simp

lemma demo_walk:
  "walk (frames demo_this) =
     [(0, \<lparr>instanceId = 1, assetId = 5, maskTill = None\<rparr>),
      (0, \<lparr>instanceId = 2, assetId = 0, maskTill = None\<rparr>),
      (0, \<lparr>instanceId = 3, assetId = 6, maskTill = Some 1\<rparr>),
      (1, \<lparr>instanceId = 1, assetId = 5, maskTill = None\<rparr>),
      (1, \<lparr>instanceId = 4, assetId = 7, maskTill = None\<rparr>),
      (1, \<lparr>instanceId = 3, assetId = 6, maskTill = None\<rparr>)]"
  by (simp add: walk_def demo_this_def demo_frames_def)

lemma demo_first_ids:
  "first_ids {} (map snd (walk (frames demo_this))) =
     [\<lparr>instanceId = 1, assetId = 5, maskTill = None\<rparr>,
      \<lparr>instanceId = 2, assetId = 0, maskTill = None\<rparr>,
      \<lparr>instanceId = 3, assetId = 6, maskTill = Some 1\<rparr>,
      \<lparr>instanceId = 4, assetId = 7, maskTill = None\<rparr>]"
  unfolding demo_walk by simp

lemma demo_contents:
  "case getContents demo_api demo_heap \<lparr>compress = True\<rparr> demo_container of
     Inl e \<Rightarrow> False
   | Inr (buf, this') \<Rightarrow>
       buf = ''m;n;m;b<m;a<m;this.ac(m, n, m, b, a);'' \<and>
       addChildren this' = [''m'', ''n'', ''m'', ''b'', ''a'']"
  by code_simp

section \<open>Claims about Container\<close>

text \<open>
  Claim C1. When \<^verbatim>\<open>addChildren\<close> is empty and \<^verbatim>\<open>getContents\<close> runs to its end,
  \<^verbatim>\<open>addChildren\<close> holds the local name of the mask of each entry of \<^verbatim>\<open>masks\<close>, in order, then
  the local name of each entry of \<^verbatim>\<open>children\<close>, in order: its length is the number of masks
  plus the number of children and its first part is the masks' names. \<^verbatim>\<open>masks\<close> and
  \<^verbatim>\<open>children\<close> are as before. The pass runs to its end whenever every entry of \<^verbatim>\<open>masks\<close> has
  a mask.
\<close>

theorem getContents_addChildren:
  assumes "addChildren this = []"
  shows "(getContents api h renderer this = Inr (buf, this') \<longrightarrow>
           addChildren this'
             = map (\<lambda>e. localName api (state (h ! the (entry_mask e)))) (masks this)
               @ map (\<lambda>r. localName api (state (h ! r))) (children this) \<and>
           length (addChildren this') = length (masks this) + length (children this) \<and>
           take (length (masks this)) (addChildren this')
             = map (\<lambda>e. localName api (state (h ! the (entry_mask e)))) (masks this) \<and>
           drop (length (masks this)) (addChildren this')
             = map (\<lambda>r. localName api (state (h ! r))) (children this) \<and>
           (\<forall>e \<in> set (masks this). entry_mask e \<noteq> None) \<and>
           masks this' = masks this \<and> children this' = children this) \<and>
         ((\<forall>e \<in> set (masks this). entry_mask e \<noteq> None) \<longrightarrow>
            (\<exists>res. getContents api h renderer this = Inr res))"
proof (intro conjI impI)
  assume g: "getContents api h renderer this = Inr (buf, this')"
  note r = getContents_Inr [OF g]
  from r assms have a: "addChildren this'
             = map (\<lambda>e. localName api (state (h ! the (entry_mask e)))) (masks this)
               @ map (\<lambda>r. localName api (state (h ! r))) (children this)"
    by (simp add: name_of_def [abs_def])
  show "addChildren this'
             = map (\<lambda>e. localName api (state (h ! the (entry_mask e)))) (masks this)
               @ map (\<lambda>r. localName api (state (h ! r))) (children this)"
    by (rule a)
  show "length (addChildren this') = length (masks this) + length (children this)"
    unfolding a by simp
  show "take (length (masks this)) (addChildren this')
             = map (\<lambda>e. localName api (state (h ! the (entry_mask e)))) (masks this)"
    unfolding a by simp
  show "drop (length (masks this)) (addChildren this')
             = map (\<lambda>r. localName api (state (h ! r))) (children this)"
    unfolding a by simp
  show "\<forall>e \<in> set (masks this). entry_mask e \<noteq> None" using r by blast
  show "masks this' = masks this" using r by simp
  show "children this' = children this" using r by simp
next
  assume "\<forall>e \<in> set (masks this). entry_mask e \<noteq> None"
  then show "\<exists>res. getContents api h renderer this = Inr res"
    by (rule getContents_defined)
qed

theorem getContents_addChildren_witness:
  "addChildren demo_container = [] \<and>
   map entry_mask (masks demo_container) = [Some 0, Some 2, Some 0] \<and>
   (\<exists>buf this'.
      getContents demo_api demo_heap \<lparr>compress = True\<rparr> demo_container = Inr (buf, this') \<and>
      addChildren this' = [''m'', ''n'', ''m'', ''b'', ''a''] \<and>
      length (addChildren this') = length (masks demo_container) + length (children demo_container))"
proof -
  have e: "addChildren demo_container = []" by (simp add: demo_container_def)
  have d: "map entry_mask (masks demo_container) = [Some 0, Some 2, Some 0]"
    by (simp add: demo_container_def)
  from demo_contents obtain buf this' where
    g: "getContents demo_api demo_heap \<lparr>compress = True\<rparr> demo_container = Inr (buf, this')" and
    a: "addChildren this' = [''m'', ''n'', ''m'', ''b'', ''a'']"
    by (auto split: sum.splits)
  from getContents_addChildren [OF e, of demo_api demo_heap "\<lparr>compress = True\<rparr>" buf this'] g
  have l: "length (addChildren this') = length (masks demo_container) + length (children demo_container)"
    by blast
  from e d g a l show ?thesis by (intro exI conjI)
qed

text \<open>
  Claim C2. \<^verbatim>\<open>onMaskRemoved(command, frame)\<close>, with \<open>mask\<close> what the map of instances holds at
  \<^verbatim>\<open>command.instanceId\<close>: every entry of \<^verbatim>\<open>masks\<close> whose \<^verbatim>\<open>mask\<close> is \<open>mask\<close> gets the duration
  \<open>frame\<close> minus its own frame, whichever its position; every other entry is as it was; when
  no entry matches, the Container is as it was. Nothing but \<^verbatim>\<open>masks\<close> is touched.
\<close>

theorem onMaskRemoved_all_matching:
  "length (masks (onMaskRemoved this command fr)) = length (masks this) \<and>
   (\<forall>i < length (masks this).
      (entry_mask (masks this ! i) = instancesMap this (instanceId command) \<longrightarrow>
         masks (onMaskRemoved this command fr) ! i
           = (masks this ! i)\<lparr>entry_duration := Some (fr - entry_frame (masks this ! i))\<rparr>) \<and>
      (entry_mask (masks this ! i) \<noteq> instancesMap this (instanceId command) \<longrightarrow>
         masks (onMaskRemoved this command fr) ! i = masks this ! i)) \<and>
   ((\<forall>e \<in> set (masks this). entry_mask e \<noteq> instancesMap this (instanceId command)) \<longrightarrow>
      onMaskRemoved this command fr = this) \<and>
   instancesMap (onMaskRemoved this command fr) = instancesMap this \<and>
   frames (onMaskRemoved this command fr) = frames this \<and>
   children (onMaskRemoved this command fr) = children this \<and>
   addChildren (onMaskRemoved this command fr) = addChildren this"
proof -
  let ?mask = "instancesMap this (instanceId command)"
  let ?f = "\<lambda>entry. if entry_mask entry = ?mask
                      then entry\<lparr>entry_duration := Some (fr - entry_frame entry)\<rparr> else entry"
  have m: "masks (onMaskRemoved this command fr) = map ?f (masks this)"
    by (simp add: onMaskRemoved_def)
  have none: "(\<forall>e \<in> set (masks this). entry_mask e \<noteq> ?mask) \<longrightarrow>
                onMaskRemoved this command fr = this"
  proof
    assume "\<forall>e \<in> set (masks this). entry_mask e \<noteq> ?mask"
    then have "map ?f (masks this) = masks this"
      by (simp add: map_fixed_iff)
    then show "onMaskRemoved this command fr = this"
      by (simp add: onMaskRemoved_def)
  qed
  show ?thesis
    unfolding m using none by (simp add: onMaskRemoved_def)
qed

theorem onMaskRemoved_all_matching_witness:
  "(0::nat) < length (masks demo_container) \<and>
   entry_mask (masks demo_container ! 0) = instancesMap demo_container 10 \<and>
   entry_mask (masks demo_container ! 2) = instancesMap demo_container 10 \<and>
   masks (onMaskRemoved demo_container \<lparr>instanceId = 10, assetId = 1, maskTill = None\<rparr> 7)
     = [\<lparr>entry_instance = Some 1, entry_mask = Some 0, entry_frame = 0,
         entry_duration = Some 7\<rparr>,
        \<lparr>entry_instance = Some 1, entry_mask = Some 2, entry_frame = 3,
         entry_duration = None\<rparr>,
        \<lparr>entry_instance = Some 3, entry_mask = Some 0, entry_frame = 5,
         entry_duration = Some 2\<rparr>] \<and>
   instancesMap demo_container 99 = None \<and>
   map entry_mask (masks demo_container) = [Some 0, Some 2, Some 0] \<and>
   onMaskRemoved demo_container \<lparr>instanceId = 99, assetId = 1, maskTill = None\<rparr> 7
     = demo_container"
proof -
  let ?c = "\<lparr>instanceId = 10, assetId = 1, maskTill = None\<rparr>"
  let ?u = "\<lparr>instanceId = 99, assetId = 1, maskTill = None\<rparr>"
  have ms: "masks demo_container =
     [\<lparr>entry_instance = Some 1, entry_mask = Some 0, entry_frame = 0, entry_duration = None\<rparr>,
      \<lparr>entry_instance = Some 1, entry_mask = Some 2, entry_frame = 3, entry_duration = None\<rparr>,
      \<lparr>entry_instance = Some 3, entry_mask = Some 0, entry_frame = 5, entry_duration = None\<rparr>]"
    by (simp add: demo_container_def)
  have im: "instancesMap demo_container 10 = Some 0" "instancesMap demo_container 99 = None"
    by (simp_all add: demo_container_def)
  note t = onMaskRemoved_all_matching [of demo_container ?c 7]
  from t have len: "length (masks (onMaskRemoved demo_container ?c 7)) = 3"
    by (simp add: ms)
  from t have all: "\<forall>i < 3.
      (entry_mask (masks demo_container ! i) = Some 0 \<longrightarrow>
         masks (onMaskRemoved demo_container ?c 7) ! i
           = (masks demo_container ! i)\<lparr>entry_duration :=
                Some (7 - entry_frame (masks demo_container ! i))\<rparr>) \<and>
      (entry_mask (masks demo_container ! i) \<noteq> Some 0 \<longrightarrow>
         masks (onMaskRemoved demo_container ?c 7) ! i = masks demo_container ! i)"
    using im by (simp add: ms)
  have e0: "masks (onMaskRemoved demo_container ?c 7) ! 0
      = \<lparr>entry_instance = Some 1, entry_mask = Some 0, entry_frame = 0, entry_duration = Some 7\<rparr>"
    using all [rule_format, of 0] by (simp add: ms)
  have e1: "masks (onMaskRemoved demo_container ?c 7) ! 1
      = \<lparr>entry_instance = Some 1, entry_mask = Some 2, entry_frame = 3, entry_duration = None\<rparr>"
    using all [rule_format, of 1] by (simp add: ms)
  have e2: "masks (onMaskRemoved demo_container ?c 7) ! 2
      = \<lparr>entry_instance = Some 3, entry_mask = Some 0, entry_frame = 5, entry_duration = Some 2\<rparr>"
    using all [rule_format, of 2] by (simp add: ms)
  have r: "masks (onMaskRemoved demo_container ?c 7)
     = [\<lparr>entry_instance = Some 1, entry_mask = Some 0, entry_frame = 0,
         entry_duration = Some 7\<rparr>,
        \<lparr>entry_instance = Some 1, entry_mask = Some 2, entry_frame = 3,
         entry_duration = None\<rparr>,
        \<lparr>entry_instance = Some 3, entry_mask = Some 0, entry_frame = 5,
         entry_duration = Some 2\<rparr>]"
    using len e0 e1 e2
    by (simp add: list_eq_iff_nth_eq less_Suc_eq numeral_3_eq_3 numeral_2_eq_2)
  have h: "\<forall>e \<in> set (masks demo_container). entry_mask e \<noteq> instancesMap demo_container 99"
    by (simp add: ms im)
  have u: "onMaskRemoved demo_container ?u 7 = demo_container"
    using onMaskRemoved_all_matching [of demo_container ?u 7] h by simp
  show ?thesis using r u im by (simp add: ms)
qed



text \<open>
  Claim C4. The list \<^verbatim>\<open>getChildren\<close> returns is the reverse of the candidate list filtered
  by \<^verbatim>\<open>renderable\<close> as read after the walk: the backward pass with \<^verbatim>\<open>splice\<close> gives, on any
  list, what a forward filter gives, survivors in their original order. When the map of
  instances starts empty, the candidate list holds the instances that are not sound
  instances in the order in which their ids first occur in the walk.
\<close>

theorem getChildren_reverse_filter:
  assumes "getChildren api this w = Inr (ch, this', w')"
  shows "\<exists>cand.
           forEach_frame api (frames this) ([], this, w) = Inr (cand, this', w') \<and>
           splice_loop (\<lambda>r. renderable api (state (heap w' ! r))) cand (int (length cand) - 1)
             = Inr (filter (\<lambda>r. renderable api (state (heap w' ! r))) cand) \<and>
           ch = rev (filter (\<lambda>r. renderable api (state (heap w' ! r))) cand) \<and>
           (instancesMap this = Map.empty \<longrightarrow>
              cand = map (\<lambda>c. the (instancesMap this' (instanceId c)))
                       (filter (\<lambda>c. \<not> isSoundInstance
                                       (heap w' ! the (instancesMap this' (instanceId c))))
                          (first_ids {} (map snd (walk (frames this))))))"
proof -
  from getChildren_Inr [OF assms] obtain cand where
    f: "forEach_frame api (frames this) ([], this, w) = Inr (cand, this', w')" and
    c: "ch = rev (filter (\<lambda>r. renderable api (state (heap w' ! r))) cand)"
    by blast
  have s: "splice_loop (\<lambda>r. renderable api (state (heap w' ! r))) cand (int (length cand) - 1)
             = Inr (filter (\<lambda>r. renderable api (state (heap w' ! r))) cand)"
    by (rule splice_loop_all)
  have e: "instancesMap this = Map.empty \<longrightarrow>
              cand = map (\<lambda>c. the (instancesMap this' (instanceId c)))
                       (filter (\<lambda>c. \<not> isSoundInstance
                                       (heap w' ! the (instancesMap this' (instanceId c))))
                          (first_ids {} (map snd (walk (frames this)))))"
  proof
    assume m: "instancesMap this = Map.empty"
    from f have v: "visit_all api (walk (frames this)) ([], this, w) = Inr (cand, this', w')"
      by (simp add: forEach_frame_walk)
    have "cand = [] @ map (\<lambda>c. the (instancesMap this' (instanceId c)))
                       (filter (\<lambda>c. \<not> isSoundInstance
                                       (heap w' ! the (instancesMap this' (instanceId c))))
                          (first_ids (dom (instancesMap this)) (map snd (walk (frames this)))))"
      using visit_all_candidates [OF v] m by simp
    then show "cand = map (\<lambda>c. the (instancesMap this' (instanceId c)))
                       (filter (\<lambda>c. \<not> isSoundInstance
                                       (heap w' ! the (instancesMap this' (instanceId c))))
                          (first_ids {} (map snd (walk (frames this)))))"
      using m by simp
  qed
  from f s c e show ?thesis by blast
qed

theorem getChildren_reverse_filter_witness:
  "\<exists>this' w'.
     getChildren demo_api demo_this demo_world = Inr ([3, 0], this', w') \<and>
     instancesMap demo_this = Map.empty \<and>
     forEach_frame demo_api (frames demo_this) ([], demo_this, demo_world)
       = Inr ([0, 2, 3], this', w') \<and>
     filter (\<lambda>r. renderable demo_api (state (heap w' ! r))) [0, 2, 3] = [0, 3]"
proof -
  from demo_run obtain this' w' where
    g: "getChildren demo_api demo_this demo_world = Inr ([3, 0], this', w')" and
    im: "map (instancesMap this') [1, 2, 3, 4] = [Some 0, Some 1, Some 2, Some 3]" and
    len: "length (heap w') = 4" and
    snd: "map isSoundInstance (heap w') = [False, True, False, False]" and
    rnd: "map (\<lambda>obj. renderable demo_api (state obj)) (heap w') = [True, True, False, True]"
    by (auto split: sum.splits)
  have m: "instancesMap demo_this = Map.empty" by (simp add: demo_this_def)
  have s: "isSoundInstance (heap w' ! 0) = False" "isSoundInstance (heap w' ! 1) = True"
    "isSoundInstance (heap w' ! 2) = False" "isSoundInstance (heap w' ! 3) = False"
    using arg_cong [where f = "\<lambda>xs. xs ! 0", OF snd] arg_cong [where f = "\<lambda>xs. xs ! 1", OF snd]
      arg_cong [where f = "\<lambda>xs. xs ! 2", OF snd] arg_cong [where f = "\<lambda>xs. xs ! 3", OF snd] len
    by simp_all
  have r: "renderable demo_api (state (heap w' ! 0)) = True"
    "renderable demo_api (state (heap w' ! 2)) = False"
    "renderable demo_api (state (heap w' ! 3)) = True"
    using arg_cong [where f = "\<lambda>xs. xs ! 0", OF rnd]
      arg_cong [where f = "\<lambda>xs. xs ! 2", OF rnd] arg_cong [where f = "\<lambda>xs. xs ! 3", OF rnd] len
    by simp_all
  from getChildren_reverse_filter [OF g] m obtain cand where
    f: "forEach_frame demo_api (frames demo_this) ([], demo_this, demo_world)
          = Inr (cand, this', w')" and
    c: "cand = map (\<lambda>c. the (instancesMap this' (instanceId c)))
                 (filter (\<lambda>c. \<not> isSoundInstance (heap w' ! the (instancesMap this' (instanceId c))))
                    (first_ids {} (map snd (walk (frames demo_this)))))"
    by blast
  from c im s have "cand = [0, 2, 3]" unfolding demo_first_ids by simp
  with f r g m show ?thesis by simp
qed

text \<open>
  Claim C5. Of the list \<^verbatim>\<open>getChildren\<close> returns, called on a Container whose map of
  instances is empty: every entry is an instance of the heap that is not a sound instance and
  whose \<^verbatim>\<open>renderable\<close> is true after the walk. Every command of the walk, those of sound
  instances too, has been passed to \<^verbatim>\<open>addToFrame\<close> of its instance.
\<close>

theorem getChildren_no_sound_no_unrenderable:
  assumes "getChildren api this w = Inr (ch, this', w')"
    and "instancesMap this = Map.empty"
  shows "(\<forall>r \<in> set ch. r < length (heap w') \<and> \<not> isSoundInstance (heap w' ! r) \<and>
                        renderable api (state (heap w' ! r))) \<and>
         (\<forall>(fr, c) \<in> set (walk (frames this)).
            (the (instancesMap this' (instanceId c)), fr, c) \<in> set (attached (calls w')) \<and>
            (isSoundInstance (heap w' ! the (instancesMap this' (instanceId c))) \<longrightarrow>
               the (instancesMap this' (instanceId c)) \<notin> set ch))"
proof -
  from getChildren_Inr [OF assms(1)] obtain cand where
    v: "visit_all api (walk (frames this)) ([], this, w) = Inr (cand, this', w')" and
    c: "ch = rev (filter (\<lambda>r. renderable api (state (heap w' ! r))) cand)"
    by (auto simp: forEach_frame_walk)
  have inv: "(\<forall>i r. instancesMap this' i = Some r \<longrightarrow> r < length (heap w')) \<and>
         (\<forall>r. r \<in> set cand \<longleftrightarrow>
               (\<exists>i. instancesMap this' i = Some r) \<and> \<not> isSoundInstance (heap w' ! r))"
  proof -
    have p1: "\<forall>i r. instancesMap this i = Some r \<longrightarrow> r < length (heap w)"
      using assms(2) by simp
    have p2: "\<forall>r. r \<in> set [] \<longleftrightarrow>
                (\<exists>i. instancesMap this i = Some r) \<and> \<not> isSoundInstance (heap w ! r)"
      using assms(2) by simp
    from visit_all_candidates [OF v p1 p2] show ?thesis by blast
  qed
  have 1: "\<forall>r \<in> set ch. r < length (heap w') \<and> \<not> isSoundInstance (heap w' ! r) \<and>
                        renderable api (state (heap w' ! r))"
    unfolding c using inv by auto
  have a: "attached (calls w') = attached (calls w) @
           map (\<lambda>(fr, c). (the (instancesMap this' (instanceId c)), fr, c)) (walk (frames this))"
    by (rule visit_all_attached [OF v])
  have 2: "\<forall>(fr, c) \<in> set (walk (frames this)).
            (the (instancesMap this' (instanceId c)), fr, c) \<in> set (attached (calls w')) \<and>
            (isSoundInstance (heap w' ! the (instancesMap this' (instanceId c))) \<longrightarrow>
               the (instancesMap this' (instanceId c)) \<notin> set ch)"
    unfolding a using 1 by force
  from 1 2 show ?thesis by (intro conjI)
qed

theorem getChildren_no_sound_no_unrenderable_witness:
  "\<exists>this' w'.
     getChildren demo_api demo_this demo_world = Inr ([3, 0], this', w') \<and>
     instancesMap demo_this = Map.empty \<and>
     3 < length (heap w') \<and> \<not> isSoundInstance (heap w' ! 3) \<and>
     renderable demo_api (state (heap w' ! 3)) \<and>
     0 < length (heap w') \<and> \<not> isSoundInstance (heap w' ! 0) \<and>
     renderable demo_api (state (heap w' ! 0)) \<and>
     instancesMap this' 2 = Some 1 \<and> isSoundInstance (heap w' ! 1) \<and>
     (1, 0, \<lparr>instanceId = 2, assetId = 0, maskTill = None\<rparr>) \<in> set (attached (calls w'))"
proof -
  from demo_run obtain this' w' where
    g: "getChildren demo_api demo_this demo_world = Inr ([3, 0], this', w')" and
    im: "map (instancesMap this') [1, 2, 3, 4] = [Some 0, Some 1, Some 2, Some 3]" and
    len: "length (heap w') = 4" and
    snd: "map isSoundInstance (heap w') = [False, True, False, False]"
    by (auto split: sum.splits)
  have m: "instancesMap demo_this = Map.empty" by (simp add: demo_this_def)
  have s: "isSoundInstance (heap w' ! 1)"
    using arg_cong [where f = "\<lambda>xs. xs ! 1", OF snd] len by simp
  from im have i2: "instancesMap this' 2 = Some 1" by simp
  note t = getChildren_no_sound_no_unrenderable [OF g m, unfolded demo_walk]
  from t have "\<forall>r \<in> set [3, 0]. r < length (heap w') \<and> \<not> isSoundInstance (heap w' ! r) \<and>
                          renderable demo_api (state (heap w' ! r))" by blast
  then have a: "3 < length (heap w')" "\<not> isSoundInstance (heap w' ! 3)"
    "renderable demo_api (state (heap w' ! 3))"
    "0 < length (heap w')" "\<not> isSoundInstance (heap w' ! 0)"
    "renderable demo_api (state (heap w' ! 0))" by simp_all
  from t i2 have b: "(1, 0, \<lparr>instanceId = 2, assetId = 0, maskTill = None\<rparr>)
                       \<in> set (attached (calls w'))" by simp
  from g m a i2 s b show ?thesis by (intro exI conjI)
qed

text \<open>
  Claim C6. What \<^verbatim>\<open>getContents\<close> returns is, in this order: the fragment of the mask of each
  entry of \<^verbatim>\<open>masks\<close>, the fragment of each entry of \<^verbatim>\<open>children\<close>, and the closing statement.
  A fragment is what the instance renders to, given the name \<^verbatim>\<open>getMaskByInstance\<close> finds for
  it. The closing statement lists the names \<^verbatim>\<open>addChildren\<close> holds after the pass, those it
  held before included, joined by a comma and a space, inside \<^verbatim>\<open>this.ac(\<close> and \<^verbatim>\<open>);\<close> when
  \<^verbatim>\<open>renderer.compress\<close> is set and inside \<^verbatim>\<open>this.addChild(\<close> and \<^verbatim>\<open>);\<close> otherwise; it is
  left out when \<^verbatim>\<open>addChildren\<close> is empty.
\<close>

theorem getContents_order:
  assumes "getContents api h renderer this = Inr (buf, this')"
  shows "buf = concat (map (\<lambda>e. instance_render api (h ! the (entry_mask e)) renderer
                                   (mask_of api h (masks this) (the (entry_mask e))))
                          (masks this))
               @ concat (map (\<lambda>r. instance_render api (h ! r) renderer
                                     (mask_of api h (masks this) r))
                            (children this))
               @ (if addChildren this' = [] then []
                  else ''this.'' @ (if compress renderer then ''ac'' else ''addChild'') @ ''(''
                       @ join '', '' (addChildren this') @ '');'') \<and>
         addChildren this'
           = addChildren this
             @ map (\<lambda>e. localName api (state (h ! the (entry_mask e)))) (masks this)
             @ map (\<lambda>r. localName api (state (h ! r))) (children this) \<and>
         (\<forall>e \<in> set (masks this). entry_mask e \<noteq> None) \<and>
         (\<forall>r. getMaskByInstance api h this (Some r) = Inr (mask_of api h (masks this) r))"
proof -
  note r = getContents_Inr [OF assms]
  from r have d: "\<forall>e \<in> set (masks this). entry_mask e \<noteq> None" by blast
  have 1: "buf = concat (map (\<lambda>e. instance_render api (h ! the (entry_mask e)) renderer
                                   (mask_of api h (masks this) (the (entry_mask e))))
                          (masks this))
               @ concat (map (\<lambda>r. instance_render api (h ! r) renderer
                                     (mask_of api h (masks this) r))
                            (children this))
               @ (if addChildren this' = [] then []
                  else ''this.'' @ (if compress renderer then ''ac'' else ''addChild'') @ ''(''
                       @ join '', '' (addChildren this') @ '');'')"
    using r by (simp add: fragment_def [abs_def] renderAddChildren_eq)
  have 2: "addChildren this'
           = addChildren this
             @ map (\<lambda>e. localName api (state (h ! the (entry_mask e)))) (masks this)
             @ map (\<lambda>r. localName api (state (h ! r))) (children this)"
    using r by (simp add: name_of_def [abs_def])
  have 4: "\<forall>r. getMaskByInstance api h this (Some r) = Inr (mask_of api h (masks this) r)"
  proof
    fix r
    from scan_masks_defined [OF d, of api h "Some r"] obtain m where
      m: "scan_masks api h (masks this) (Some r) = Inr m" ..
    with scan_masks_Inr [OF m] show
      "getMaskByInstance api h this (Some r) = Inr (mask_of api h (masks this) r)"
      by (simp add: getMaskByInstance_def)
  qed
  from 1 2 d 4 show ?thesis by (intro conjI)
qed

theorem getContents_order_witness:
  "\<exists>this'.
     getContents demo_api demo_heap \<lparr>compress = True\<rparr> demo_container
       = Inr (''m;n;m;b<m;a<m;this.ac(m, n, m, b, a);'', this') \<and>
     ''m;n;m;b<m;a<m;this.ac(m, n, m, b, a);''
       = ''m;n;m;'' @ ''b<m;a<m;'' @ ''this.'' @ ''ac'' @ ''('' @ join '', '' (addChildren this') @ '');'' \<and>
     addChildren this' = [''m'', ''n'', ''m'', ''b'', ''a'']"
proof -
  from demo_contents obtain this' where
    g: "getContents demo_api demo_heap \<lparr>compress = True\<rparr> demo_container
          = Inr (''m;n;m;b<m;a<m;this.ac(m, n, m, b, a);'', this')"
    by (auto split: sum.splits)
  have p: "concat (map (\<lambda>e. instance_render demo_api (demo_heap ! the (entry_mask e)) \<lparr>compress = True\<rparr>
                        (mask_of demo_api demo_heap (masks demo_container) (the (entry_mask e))))
                 (masks demo_container)) = ''m;n;m;''"
    by code_simp
  have q: "concat (map (\<lambda>r. instance_render demo_api (demo_heap ! r) \<lparr>compress = True\<rparr>
                        (mask_of demo_api demo_heap (masks demo_container) r))
                 (children demo_container)) = ''b<m;a<m;''"
    by code_simp
  have n: "addChildren demo_container
             @ map (\<lambda>e. localName demo_api (state (demo_heap ! the (entry_mask e))))
                 (masks demo_container)
             @ map (\<lambda>r. localName demo_api (state (demo_heap ! r))) (children demo_container)
           = [''m'', ''n'', ''m'', ''b'', ''a'']"
    by code_simp
  note t = getContents_order [OF g, unfolded p q n]
  from t have a: "addChildren this' = [''m'', ''n'', ''m'', ''b'', ''a'']" by blast
  from t a have b: "''m;n;m;b<m;a<m;this.ac(m, n, m, b, a);''
       = ''m;n;m;'' @ ''b<m;a<m;'' @ ''this.'' @ ''ac'' @ ''('' @ join '', '' (addChildren this') @ '');''"
    by simp
  from g b a show ?thesis by (intro exI conjI)
qed

text \<open>
  Claim C8. \<^verbatim>\<open>getMaskByInstance\<close> goes through \<^verbatim>\<open>masks\<close> from the front and stops at the first
  entry whose \<^verbatim>\<open>instance\<close> is the given one: the result is the local name of that entry's
  mask, and \<^verbatim>\<open>null\<close> when no entry matches. Later entries for the same instance are never
  used. (Reading the name of a mask that is \<^verbatim>\<open>undefined\<close> throws.)
\<close>

theorem getMaskByInstance_first_match:
  "getMaskByInstance api h this inst =
     (case find (\<lambda>e. entry_instance e = inst) (masks this) of
        None \<Rightarrow> Inr None
      | Some e \<Rightarrow> (case entry_mask e of
                     None \<Rightarrow> Inl TypeError
                   | Some m \<Rightarrow> Inr (Some (localName api (state (h ! m)))))) \<and>
   (\<forall>i < length (masks this). \<forall>m.
      entry_instance (masks this ! i) = inst \<and>
      (\<forall>j < i. entry_instance (masks this ! j) \<noteq> inst) \<and>
      entry_mask (masks this ! i) = Some m \<longrightarrow>
      getMaskByInstance api h this inst = Inr (Some (localName api (state (h ! m))))) \<and>
   ((\<forall>e \<in> set (masks this). entry_instance e \<noteq> inst) \<longrightarrow>
      getMaskByInstance api h this inst = Inr None)"
proof (intro conjI allI impI)
  show "getMaskByInstance api h this inst =
     (case find (\<lambda>e. entry_instance e = inst) (masks this) of
        None \<Rightarrow> Inr None
      | Some e \<Rightarrow> (case entry_mask e of
                     None \<Rightarrow> Inl TypeError
                   | Some m \<Rightarrow> Inr (Some (localName api (state (h ! m))))))"
    by (simp add: getMaskByInstance_def scan_masks_find)
next
  fix i m
  assume i: "i < length (masks this)"
    and "entry_instance (masks this ! i) = inst \<and>
         (\<forall>j < i. entry_instance (masks this ! j) \<noteq> inst) \<and>
         entry_mask (masks this ! i) = Some m"
  then have "find (\<lambda>e. entry_instance e = inst) (masks this) = Some (masks this ! i)"
    and "entry_mask (masks this ! i) = Some m"
    by (auto simp: find_Some_iff)
  then show "getMaskByInstance api h this inst = Inr (Some (localName api (state (h ! m))))"
    by (simp add: getMaskByInstance_def scan_masks_find)
next
  assume "\<forall>e \<in> set (masks this). entry_instance e \<noteq> inst"
  then have "find (\<lambda>e. entry_instance e = inst) (masks this) = None"
    by (simp add: find_None_iff)
  then show "getMaskByInstance api h this inst = Inr None"
    by (simp add: getMaskByInstance_def scan_masks_find)
qed

theorem getMaskByInstance_first_match_witness:
  "(0::nat) < length (masks demo_container) \<and>
   entry_instance (masks demo_container ! 0) = Some 1 \<and>
   entry_mask (masks demo_container ! 0) = Some 0 \<and>
   entry_instance (masks demo_container ! 1) = Some 1 \<and>
   entry_mask (masks demo_container ! 1) = Some 2 \<and>
   getMaskByInstance demo_api demo_heap demo_container (Some 1) = Inr (Some ''m'') \<and>
   map entry_instance (masks demo_container) = [Some 1, Some 1, Some 3] \<and>
   getMaskByInstance demo_api demo_heap demo_container (Some 0) = Inr None"
proof -
  have ms: "masks demo_container =
     [\<lparr>entry_instance = Some 1, entry_mask = Some 0, entry_frame = 0, entry_duration = None\<rparr>,
      \<lparr>entry_instance = Some 1, entry_mask = Some 2, entry_frame = 3, entry_duration = None\<rparr>,
      \<lparr>entry_instance = Some 3, entry_mask = Some 0, entry_frame = 5, entry_duration = None\<rparr>]"
    by (simp add: demo_container_def)
  have n: "localName demo_api (state (demo_heap ! 0)) = ''m''"
    by (simp add: demo_api_def demo_heap_def)
  note t = getMaskByInstance_first_match [of demo_api demo_heap demo_container]
  have a: "getMaskByInstance demo_api demo_heap demo_container (Some 1) = Inr (Some ''m'')"
    using t [of "Some 1", THEN conjunct2, THEN conjunct1, rule_format, of 0 0] n
    by (simp add: ms)
  have h: "\<forall>e \<in> set (masks demo_container). entry_instance e \<noteq> Some 0"
    by (simp add: ms)
  have b: "getMaskByInstance demo_api demo_heap demo_container (Some 0) = Inr None"
    using t [of "Some 0", THEN conjunct2, THEN conjunct2] h by blast
  show ?thesis using a b by (simp add: ms)
qed

end
